theory Spec2Isabelle
  imports Complex_Main "HOL-Library.Sublist"
begin

section \<open>Candle window planning (get_signals, app.py lines 196-220)\<close>

text \<open>
  The endpoint reads an optional \<open>date\<close> query parameter. Three outcomes of lines
  192-204 are distinguished: the parameter is absent or empty (Python's \<open>if date_param\<close>
  is false for both), it is present but \<open>datetime.fromisoformat\<close> raises ValueError,
  or it is present and denotes an epoch timestamp in seconds.
\<close>

datatype date_arg = NoDate | BadDate | IsoDate int

definition fifty_hours_ago :: "int \<Rightarrow> int" where
  "fifty_hours_ago current_time = current_time - (50 * 3600)"

text \<open>Python's \<open>//\<close> on integers is floor division, as is \<open>div\<close> on \<open>int\<close>.\<close>

definition hours_remaining :: "int \<Rightarrow> int \<Rightarrow> int" where
  "hours_remaining current_time target_timestamp =
     (target_timestamp - fifty_hours_ago current_time) div 3600"

definition candles_to_fetch :: "int \<Rightarrow> int \<Rightarrow> int" where
  "candles_to_fetch current_time target_timestamp =
     (if target_timestamp > fifty_hours_ago current_time
      then min 50 (max 1 (hours_remaining current_time target_timestamp))
      else 50)"

record fetch_plan =
  plan_count :: int
  plan_since :: int

text \<open>
  \<open>plan_window\<close> is the block of lines 200-220; \<open>None\<close> is the early return of the
  400 response on an unparsable date.
\<close>

definition plan_window :: "int \<Rightarrow> int \<Rightarrow> date_arg \<Rightarrow> fetch_plan option" where
  "plan_window current_time interval d =
     (case d of
        IsoDate target_timestamp \<Rightarrow>
          (let n = candles_to_fetch current_time target_timestamp
           in Some \<lparr>plan_count = n, plan_since = target_timestamp - (n * interval * 60)\<rparr>)
      | BadDate \<Rightarrow> None
      | NoDate \<Rightarrow>
          Some \<lparr>plan_count = 50, plan_since = current_time - (50 * interval * 60)\<rparr>)"

text \<open>The specification's \<open>clamp(x, lo, hi)\<close>, written from its words.\<close>

definition spec_clamp :: "int \<Rightarrow> int \<Rightarrow> int \<Rightarrow> int" where
  "spec_clamp x lo hi = (if x < lo then lo else if hi < x then hi else x)"


section \<open>Floating-point values (pandas and numpy arithmetic)\<close>

text \<open>
  Candle fields are finite decimals; they are modelled as rationals, so rounding is not
  part of the model. What is kept of IEEE arithmetic is its treatment of division by
  zero and of the special values: a pandas Series operation never raises on them, it
  yields an infinity or NaN, and NaN is also the marker pandas uses for an undefined
  entry. The sign of a zero is not modelled: \<open>a / 0\<close> for a non-zero \<open>a\<close> takes
  the sign of \<open>a\<close>.
\<close>

datatype xval = Fin rat | PInf | NInf | NaN

fun xneg :: "xval \<Rightarrow> xval" where
  "xneg (Fin a) = Fin (- a)"
| "xneg PInf = NInf"
| "xneg NInf = PInf"
| "xneg NaN = NaN"

fun xadd :: "xval \<Rightarrow> xval \<Rightarrow> xval" where
  "xadd (Fin a) (Fin b) = Fin (a + b)"
| "xadd NaN y = NaN"
| "xadd x NaN = NaN"
| "xadd PInf NInf = NaN"
| "xadd NInf PInf = NaN"
| "xadd PInf y = PInf"
| "xadd x PInf = PInf"
| "xadd NInf y = NInf"
| "xadd x NInf = NInf"

definition xsub :: "xval \<Rightarrow> xval \<Rightarrow> xval" where
  "xsub x y = xadd x (xneg y)"

definition inf_of_sign :: "bool \<Rightarrow> xval" where
  "inf_of_sign negative = (if negative then NInf else PInf)"

fun xmul :: "xval \<Rightarrow> xval \<Rightarrow> xval" where
  "xmul (Fin a) (Fin b) = Fin (a * b)"
| "xmul NaN y = NaN"
| "xmul x NaN = NaN"
| "xmul (Fin a) PInf = (if a = 0 then NaN else inf_of_sign (a < 0))"
| "xmul (Fin a) NInf = (if a = 0 then NaN else inf_of_sign (0 < a))"
| "xmul PInf (Fin b) = (if b = 0 then NaN else inf_of_sign (b < 0))"
| "xmul NInf (Fin b) = (if b = 0 then NaN else inf_of_sign (0 < b))"
| "xmul PInf PInf = PInf"
| "xmul NInf NInf = PInf"
| "xmul PInf NInf = NInf"
| "xmul NInf PInf = NInf"

fun xdiv :: "xval \<Rightarrow> xval \<Rightarrow> xval" where
  "xdiv (Fin a) (Fin b) =
     (if b \<noteq> 0 then Fin (a / b) else if a = 0 then NaN else inf_of_sign (a < 0))"
| "xdiv NaN y = NaN"
| "xdiv x NaN = NaN"
| "xdiv (Fin a) PInf = Fin 0"
| "xdiv (Fin a) NInf = Fin 0"
| "xdiv PInf (Fin b) = inf_of_sign (b < 0)"
| "xdiv NInf (Fin b) = inf_of_sign (0 \<le> b)"
| "xdiv PInf PInf = NaN"
| "xdiv PInf NInf = NaN"
| "xdiv NInf PInf = NaN"
| "xdiv NInf NInf = NaN"

text \<open>A Series entry \<open>None\<close> is NaN.\<close>

definition of_opt :: "rat option \<Rightarrow> xval" where
  "of_opt v = (case v of None \<Rightarrow> NaN | Some a \<Rightarrow> Fin a)"


section \<open>Indicators (calculate_rsi and the rolling means, app.py lines 68-71, 119-126)\<close>

text \<open>
  \<open>series.rolling(window=w).mean()\<close> with the default \<open>min_periods = w\<close>: a window
  slides over the series, and an entry is defined once the window holds \<open>w\<close>
  observations. Every series the source rolls over is free of NaN (closes, volumes, and
  the gain and loss series after \<open>where(..., 0)\<close>), so the input is a list of numbers;
  the output has \<open>None\<close> for NaN.
\<close>

fun roll :: "nat \<Rightarrow> rat list \<Rightarrow> rat list \<Rightarrow> rat option list" where
  "roll w win [] = []"
| "roll w win (x # xs) =
     (let win' = (if length win < w then win else tl win) @ [x]
      in (if length win' < w then None
          else Some (sum_list win' / of_nat (length win'))) # roll w win' xs)"

definition rolling_mean :: "nat \<Rightarrow> rat list \<Rightarrow> rat option list" where
  "rolling_mean w xs = roll w [] xs"

text \<open>\<open>prices.diff()\<close>: the first entry is NaN, every later one the step from its predecessor.\<close>

fun diff_from :: "rat \<Rightarrow> rat list \<Rightarrow> rat option list" where
  "diff_from p [] = []"
| "diff_from p (x # xs) = Some (x - p) # diff_from x xs"

fun diff :: "rat list \<Rightarrow> rat option list" where
  "diff [] = []"
| "diff (x # xs) = None # diff_from x xs"

text \<open>
  \<open>delta.where(delta > 0, 0)\<close> keeps an entry where the comparison holds and puts 0
  elsewhere; a comparison with NaN is false, so the leading NaN becomes 0.
\<close>

definition where_gt0 :: "rat option \<Rightarrow> rat" where
  "where_gt0 d = (case d of Some v \<Rightarrow> if v > 0 then v else 0 | None \<Rightarrow> 0)"

definition where_lt0 :: "rat option \<Rightarrow> rat" where
  "where_lt0 d = (case d of Some v \<Rightarrow> if v < 0 then v else 0 | None \<Rightarrow> 0)"

text \<open>The local variables \<open>gain\<close> and \<open>loss\<close> of \<open>calculate_rsi\<close> (lines 122-123).\<close>

definition rsi_gain :: "rat list \<Rightarrow> nat \<Rightarrow> rat option list" where
  "rsi_gain prices period = rolling_mean period (map where_gt0 (diff prices))"

definition rsi_loss :: "rat list \<Rightarrow> nat \<Rightarrow> rat option list" where
  "rsi_loss prices period = rolling_mean period (map (\<lambda>d. - where_lt0 d) (diff prices))"

definition calculate_rsi :: "rat list \<Rightarrow> nat \<Rightarrow> xval list" where
  "calculate_rsi prices period =
     (let gain = rsi_gain prices period;
          loss = rsi_loss prices period;
          rs = map2 (\<lambda>g l. xdiv (of_opt g) (of_opt l)) gain loss
      in map (\<lambda>r. xsub (Fin 100) (xdiv (Fin 100) (xadd (Fin 1) r))) rs)"


section \<open>The analysis prompt (generate_analysis_prompt, app.py lines 61-117)\<close>

text \<open>
  A candle as \<open>fetch_kraken_candles\<close> builds it (lines 47-54). The conversions of the
  epoch timestamp to calendar time (\<open>pd.to_datetime\<close>, \<open>datetime.fromtimestamp\<close>) are
  not modelled: a timestamp stays the integer it is, and timestamps are taken to lie in
  the range those conversions accept.
\<close>

record candle =
  timestamp :: int
  open_price :: rat
  high :: rat
  low :: rat
  close :: rat
  volume :: rat

text \<open>One row of the DataFrame \<open>df\<close> after lines 64-71: the candle and its indicator columns.\<close>

record frame_row =
  row_candle :: candle
  row_sma_20 :: "rat option"
  row_sma_50 :: "rat option"
  row_rsi :: xval
  row_volume_ma :: "rat option"

definition build_frame :: "candle list \<Rightarrow> frame_row list" where
  "build_frame candles =
     (let closes = map close candles;
          sma_20 = rolling_mean 20 closes;
          sma_50 = rolling_mean 50 closes;
          rsi = calculate_rsi closes 14;
          volume_ma = rolling_mean 20 (map volume candles)
      in map (\<lambda>i. \<lparr>row_candle = candles ! i,
                     row_sma_20 = sma_20 ! i,
                     row_sma_50 = sma_50 ! i,
                     row_rsi = rsi ! i,
                     row_volume_ma = volume_ma ! i\<rparr>)
             [0..<length candles])"

text \<open>Lines 74-75: \<open>df.iloc[-1]\<close>, and \<open>df.iloc[-2] if len(df) > 1 else latest\<close>.\<close>

definition latest_row :: "frame_row list \<Rightarrow> frame_row" where
  "latest_row df = last df"

definition previous_row :: "frame_row list \<Rightarrow> frame_row" where
  "previous_row df = (if length df > 1 then df ! (length df - 2) else latest_row df)"

text \<open>The expression \<open>(a - b) / b * 100\<close> of lines 95-97, on numpy floats.\<close>

definition pct_change :: "xval \<Rightarrow> xval \<Rightarrow> xval" where
  "pct_change a b = xmul (xdiv (xsub a b) b) (Fin 100)"

text \<open>
  The prompt is a fixed template around the values below; the model keeps the values
  and leaves out the wording and the rounding to two decimals. \<open>p_tail\<close> is
  \<open>df.tail(6).head(5)\<close>.
\<close>

record analysis_prompt =
  p_latest :: frame_row
  p_price_change :: xval
  p_rel_sma_20 :: xval
  p_rel_sma_50 :: xval
  p_tail :: "frame_row list"

datatype prompt_error = EmptyFrame

text \<open>
  An empty candle list makes \<open>pd.DataFrame(candles)\<close> a frame without columns, and
  \<open>df['timestamp']\<close> raises.
\<close>

definition generate_analysis_prompt :: "candle list \<Rightarrow> prompt_error + analysis_prompt" where
  "generate_analysis_prompt candles =
     (if candles = [] then Inl EmptyFrame
      else
        (let df = build_frame candles;
             latest = latest_row df;
             previous = previous_row df;
             c = Fin (close (row_candle latest))
         in Inr \<lparr>p_latest = latest,
                 p_price_change = pct_change c (Fin (close (row_candle previous))),
                 p_rel_sma_20 = pct_change c (of_opt (row_sma_20 latest)),
                 p_rel_sma_50 = pct_change c (of_opt (row_sma_50 latest)),
                 p_tail = take 5 (drop (length df - 6) df)\<rparr>))"


section \<open>String operations used by the response parser\<close>

text \<open>
  Texts are lists of 8-bit characters. \<open>find_str\<close> is \<open>str.find\<close> (the index of the
  first occurrence), \<open>contains_str sub s\<close> is Python's \<open>sub in s\<close>, \<open>py_split\<close> is
  \<open>str.split(sep)\<close>, \<open>py_strip\<close> is \<open>str.strip()\<close>. The source splits on two
  constant separators only; on an empty separator Python raises, and \<open>py_split\<close>
  leaves the text unsplit. The reads \<open>split(...)[1]\<close> of the source stand behind a
  test that the separator occurs, so they are in range (\<open>py_split_length\<close> below).
\<close>

fun find_str :: "string \<Rightarrow> string \<Rightarrow> nat option" where
  "find_str sub [] = (if sub = [] then Some 0 else None)"
| "find_str sub (c # cs) =
     (if prefix sub (c # cs) then Some 0 else map_option Suc (find_str sub cs))"

definition contains_str :: "string \<Rightarrow> string \<Rightarrow> bool" where
  "contains_str sub s = (find_str sub s \<noteq> None)"

lemma find_str_bound: "find_str sub s = Some k \<Longrightarrow> k + length sub \<le> length s"
proof (induction s arbitrary: k)
  case Nil
  then show ?case by (simp split: if_splits)
next
  case (Cons c cs)
  then show ?case
    by (auto simp: prefix_length_le split: if_splits dest!: prefix_length_le)
qed

function py_split :: "string \<Rightarrow> string \<Rightarrow> string list" where
  "py_split sep s =
     (if sep = [] then [s]
      else case find_str sep s of
             None \<Rightarrow> [s]
           | Some k \<Rightarrow> take k s # py_split sep (drop (k + length sep) s))"
  by pat_completeness auto
termination
proof (relation "measure (\<lambda>(sep, s). length s)")
  show "wf (measure (\<lambda>(sep, s). length s))" by simp
next
  fix sep s :: string and k :: nat
  assume "sep \<noteq> []" "find_str sep s = Some k"
  then have "k + length sep \<le> length s" "0 < length sep"
    by (simp_all add: find_str_bound)
  then have "length s - (k + length sep) < length s"
    by arith
  then show "((sep, drop (k + length sep) s), (sep, s)) \<in> measure (\<lambda>(sep, s). length s)"
    by simp
qed

declare py_split.simps [simp del]

definition is_space :: "char \<Rightarrow> bool" where
  "is_space c = (of_char c \<in> {9, 10, 11, 12, 13, 28, 29, 30, 31, 32, 133, 160 :: nat})"

definition py_strip :: "string \<Rightarrow> string" where
  "py_strip s = rev (dropWhile is_space (rev (dropWhile is_space s)))"

text \<open>
  \<open>re.search(r'\{.*\}', content, re.DOTALL)\<close>: the match starts at the leftmost
  opening brace and, the star being greedy and the dot matching every character, ends
  at the last closing brace after it; there is no match when no closing brace follows
  the first opening brace.
\<close>

definition brace_search :: "string \<Rightarrow> string option" where
  "brace_search s =
     (let t = dropWhile (\<lambda>c. c \<noteq> CHR ''{'') s
      in if CHR ''}'' \<in> set t
         then Some (rev (dropWhile (\<lambda>c. c \<noteq> CHR ''}'') (rev t)))
         else None)"


section \<open>The JSON decoder (json.loads)\<close>

text \<open>
  \<open>json.loads\<close> belongs to Python's standard library; the model follows its scanner
  (\<open>json.scanner.py_make_scanner\<close>, \<open>json.decoder\<close>): leading and trailing JSON
  whitespace is skipped, one value is scanned, and anything left over is a decode error
  (\<open>None\<close>). An object is a dictionary: a repeated key keeps its first position and
  takes the last value. Numbers with a fraction or an exponent become floats, of which
  only the lexeme is kept. Characters are 8-bit, so a \<open>\u\<close> escape above \<open>00FF\<close> is
  outside the model and is rejected. The recursion is bounded by a fuel argument which
  \<open>json_loads\<close> sets above the length of the text; that this is enough is
  \<open>json_loads_fuel_adequate\<close> below.
\<close>

datatype json =
    JNull
  | JBool bool
  | JInt int
  | JFloat string
  | JString string
  | JArray "json list"
  | JObject "(string \<times> json) list"

fun dict_set :: "(string \<times> json) list \<Rightarrow> string \<Rightarrow> json \<Rightarrow> (string \<times> json) list" where
  "dict_set [] k v = [(k, v)]"
| "dict_set ((k', v') # d) k v = (if k' = k then (k, v) # d else (k', v') # dict_set d k v)"

fun dict_get :: "(string \<times> json) list \<Rightarrow> string \<Rightarrow> json option" where
  "dict_get [] k = None"
| "dict_get ((k', v') # d) k = (if k' = k then Some v' else dict_get d k)"

definition json_ws :: "char \<Rightarrow> bool" where
  "json_ws c = (c = CHR '' '' \<or> c = CHR 0x09 \<or> c = CHR 0x0A \<or> c = CHR 0x0D)"

definition skip_ws :: "string \<Rightarrow> string" where
  "skip_ws s = dropWhile json_ws s"

definition is_digit :: "char \<Rightarrow> bool" where
  "is_digit c = (48 \<le> (of_char c :: nat) \<and> (of_char c :: nat) \<le> 57)"

definition digit_val :: "char \<Rightarrow> nat" where
  "digit_val c = of_char c - 48"

definition hex_val :: "char \<Rightarrow> nat option" where
  "hex_val c =
     (let n = (of_char c :: nat)
      in if 48 \<le> n \<and> n \<le> 57 then Some (n - 48)
         else if 97 \<le> n \<and> n \<le> 102 then Some (n - 87)
         else if 65 \<le> n \<and> n \<le> 70 then Some (n - 55)
         else None)"

definition unescape :: "char \<Rightarrow> char option" where
  "unescape c =
     (if c = CHR 0x22 then Some (CHR 0x22)
      else if c = CHR 0x5C then Some (CHR 0x5C)
      else if c = CHR ''/'' then Some (CHR ''/'')
      else if c = CHR ''b'' then Some (CHR 0x08)
      else if c = CHR ''f'' then Some (CHR 0x0C)
      else if c = CHR ''n'' then Some (CHR 0x0A)
      else if c = CHR ''r'' then Some (CHR 0x0D)
      else if c = CHR ''t'' then Some (CHR 0x09)
      else None)"

fun scanstring :: "string \<Rightarrow> string \<Rightarrow> (string \<times> string) option" where
  "scanstring [] acc = None"
| "scanstring (c # cs) acc =
     (if c = CHR 0x22 then Some (rev acc, cs)
      else if c = CHR 0x5C then
        (case cs of
           [] \<Rightarrow> None
         | e # es \<Rightarrow>
             if e = CHR ''u'' then
               (case es of
                  h1 # h2 # h3 # h4 # rest \<Rightarrow>
                    (case (hex_val h1, hex_val h2, hex_val h3, hex_val h4) of
                       (Some a, Some b, Some c', Some d) \<Rightarrow>
                         if a = 0 \<and> b = 0 then scanstring rest (char_of (16 * c' + d) # acc)
                         else None
                     | _ \<Rightarrow> None)
                | _ \<Rightarrow> None)
             else (case unescape e of
                     None \<Rightarrow> None
                   | Some u \<Rightarrow> scanstring es (u # acc)))
      else if (of_char c :: nat) < 32 then None
      else scanstring cs (c # acc))"

definition digits_value :: "string \<Rightarrow> nat" where
  "digits_value ds = foldl (\<lambda>n c. 10 * n + digit_val c) 0 ds"

definition scan_int_part :: "string \<Rightarrow> (string \<times> string) option" where
  "scan_int_part s =
     (case s of
        [] \<Rightarrow> None
      | c # cs \<Rightarrow>
          if c = CHR ''0'' then Some ([c], cs)
          else if is_digit c then Some (takeWhile is_digit s, dropWhile is_digit s)
          else None)"

definition scan_frac :: "string \<Rightarrow> string \<times> string" where
  "scan_frac s =
     (case s of
        c # d # cs \<Rightarrow>
          if c = CHR ''.'' \<and> is_digit d
          then (c # takeWhile is_digit (d # cs), dropWhile is_digit (d # cs))
          else ([], s)
      | _ \<Rightarrow> ([], s))"

definition scan_exp :: "string \<Rightarrow> string \<times> string" where
  "scan_exp s =
     (case s of
        [] \<Rightarrow> ([], s)
      | c # cs \<Rightarrow>
          if c = CHR ''e'' \<or> c = CHR ''E'' then
            (let (sg, ds) = (case cs of
                               [] \<Rightarrow> ([], cs)
                             | x # xs \<Rightarrow> if x = CHR ''-'' \<or> x = CHR ''+'' then ([x], xs)
                                         else ([], cs))
             in if ds \<noteq> [] \<and> is_digit (hd ds)
                then (c # sg @ takeWhile is_digit ds, dropWhile is_digit ds)
                else ([], s))
          else ([], s))"

definition scan_number :: "string \<Rightarrow> (json \<times> string) option" where
  "scan_number s =
     (let (neg, s1) = (case s of
                         [] \<Rightarrow> (False, s)
                       | c # cs \<Rightarrow> if c = CHR ''-'' then (True, cs) else (False, s))
      in case scan_int_part s1 of
           None \<Rightarrow> None
         | Some (ip, s2) \<Rightarrow>
             (let (fr, s3) = scan_frac s2;
                  (ex, s4) = scan_exp s3
              in if fr = [] \<and> ex = []
                 then Some (JInt (if neg then - int (digits_value ip) else int (digits_value ip)), s4)
                 else Some (JFloat ((if neg then ''-'' else []) @ ip @ fr @ ex), s4)))"

definition scan_constant :: "string \<Rightarrow> (json \<times> string) option" where
  "scan_constant s =
     (if prefix ''NaN'' s then Some (JFloat ''NaN'', drop 3 s)
      else if prefix ''Infinity'' s then Some (JFloat ''Infinity'', drop 8 s)
      else if prefix ''-Infinity'' s then Some (JFloat ''-Infinity'', drop 9 s)
      else None)"

text \<open>The branches of the scanner that do not recurse: the literals, numbers and constants.\<close>

definition scan_literal :: "string \<Rightarrow> (json \<times> string) option" where
  "scan_literal s =
     (if prefix ''null'' s then Some (JNull, drop 4 s)
      else if prefix ''true'' s then Some (JBool True, drop 4 s)
      else if prefix ''false'' s then Some (JBool False, drop 5 s)
      else (case scan_number s of
              Some res \<Rightarrow> Some res
            | None \<Rightarrow> scan_constant s))"

fun scan_once :: "nat \<Rightarrow> string \<Rightarrow> (json \<times> string) option"
  and scan_array :: "nat \<Rightarrow> json list \<Rightarrow> string \<Rightarrow> (json \<times> string) option"
  and scan_object :: "nat \<Rightarrow> (string \<times> json) list \<Rightarrow> string \<Rightarrow> (json \<times> string) option"
where
  "scan_once 0 s = None"
| "scan_once (Suc n) s =
     (case s of
        [] \<Rightarrow> None
      | c # r \<Rightarrow>
          if c = CHR 0x22 then
            (case scanstring r [] of None \<Rightarrow> None | Some (t, r') \<Rightarrow> Some (JString t, r'))
          else if c = CHR ''{'' then
            (case skip_ws r of
               [] \<Rightarrow> None
             | d # r' \<Rightarrow>
                 if d = CHR ''}'' then Some (JObject [], r')
                 else if d = CHR 0x22 then scan_object n [] r'
                 else None)
          else if c = CHR ''['' then
            (case skip_ws r of
               [] \<Rightarrow> None
             | d # r' \<Rightarrow>
                 if d = CHR '']'' then Some (JArray [], r')
                 else scan_array n [] (d # r'))
          else scan_literal s)"
| "scan_array 0 acc s = None"
| "scan_array (Suc n) acc s =
     (case scan_once n s of
        None \<Rightarrow> None
      | Some (v, r) \<Rightarrow>
          (case skip_ws r of
             [] \<Rightarrow> None
           | d # r' \<Rightarrow>
               if d = CHR '']'' then Some (JArray (acc @ [v]), r')
               else if d = CHR '','' then scan_array n (acc @ [v]) (skip_ws r')
               else None))"
| "scan_object 0 acc s = None"
| "scan_object (Suc n) acc s =
     (case scanstring s [] of
        None \<Rightarrow> None
      | Some (k, r) \<Rightarrow>
          (case skip_ws r of
             [] \<Rightarrow> None
           | c # r1 \<Rightarrow>
               if c \<noteq> CHR '':'' then None
               else (case scan_once n (skip_ws r1) of
                       None \<Rightarrow> None
                     | Some (v, r2) \<Rightarrow>
                         (case skip_ws r2 of
                            [] \<Rightarrow> None
                          | d # r3 \<Rightarrow>
                              if d = CHR ''}'' then Some (JObject (dict_set acc k v), r3)
                              else if d = CHR '','' then
                                (case skip_ws r3 of
                                   [] \<Rightarrow> None
                                 | q # r4 \<Rightarrow>
                                     if q = CHR 0x22 then scan_object n (dict_set acc k v) r4
                                     else None)
                              else None))))"

definition json_loads :: "string \<Rightarrow> json option" where
  "json_loads s =
     (case scan_once (Suc (length s)) (skip_ws s) of
        None \<Rightarrow> None
      | Some (v, r) \<Rightarrow> if skip_ws r = [] then Some v else None)"


section \<open>The recommendation collaborator (get_deepseek_analysis, app.py lines 128-184)\<close>

text \<open>Lines 165-170: the text handed to the first \<open>json.loads\<close>.\<close>

definition fenced_json_str :: "string \<Rightarrow> string" where
  "fenced_json_str content =
     (if contains_str ''```json'' content
      then py_strip (py_split ''```'' (py_split ''```json'' content ! 1) ! 0)
      else if contains_str ''```'' content
      then py_strip (py_split ''```'' (py_split ''```'' content ! 1) ! 0)
      else content)"

text \<open>
  Everything raised inside the \<open>try\<close> of lines 154-184 is re-raised as
  "DeepSeek API error": a transport failure with its message, a JSONDecodeError of the
  fallback's own \<open>json.loads\<close>, and the "Could not parse JSON" of line 181.
\<close>

datatype api_failure = TransportFailure string | JsonDecodeFailure | NoJsonFound

datatype analysis_error = KeyNotConfigured | ApiError api_failure

text \<open>Lines 162-181: the fenced or whole text first, the brace search as fallback.\<close>

definition parse_content :: "string \<Rightarrow> api_failure + json" where
  "parse_content content =
     (case json_loads (fenced_json_str content) of
        Some v \<Rightarrow> Inr v
      | None \<Rightarrow>
          (case brace_search content of
             Some m \<Rightarrow>
               (case json_loads m of
                  Some v \<Rightarrow> Inr v
                | None \<Rightarrow> Inl JsonDecodeFailure)
           | None \<Rightarrow> Inl NoJsonFound))"

text \<open>
  The chat service is outside the repository. \<open>post\<close> stands for lines 155-160: the
  request, \<open>raise_for_status\<close> and the selection of the message content; it yields the
  content text or the message of what was raised. Its first argument counts the calls
  made before this one in the same request, so that the service may answer each call
  differently. \<open>not self.deepseek_api_key\<close> holds for a missing and for an empty key.
\<close>

definition get_deepseek_analysis ::
  "string option \<Rightarrow> (nat \<Rightarrow> analysis_prompt \<Rightarrow> string + string) \<Rightarrow> nat \<Rightarrow> analysis_prompt
     \<Rightarrow> analysis_error + json" where
  "get_deepseek_analysis deepseek_api_key post call prompt =
     (if deepseek_api_key = None \<or> deepseek_api_key = Some [] then Inl KeyNotConfigured
      else
        (case post call prompt of
           Inl msg \<Rightarrow> Inl (ApiError (TransportFailure msg))
         | Inr content \<Rightarrow>
             (case parse_content content of
                Inl f \<Rightarrow> Inl (ApiError f)
              | Inr v \<Rightarrow> Inr v)))"

text \<open>The recommendation the specification asks for: an object whose \<open>signal\<close> is one of three words.\<close>

definition valid_signal :: "json \<Rightarrow> bool" where
  "valid_signal v =
     (case v of
        JObject d \<Rightarrow>
          dict_get d ''signal'' = Some (JString ''BUY'')
          \<or> dict_get d ''signal'' = Some (JString ''SELL'')
          \<or> dict_get d ''signal'' = Some (JString ''HOLD'')
      | _ \<Rightarrow> False)"


section \<open>The endpoint (get_signals, app.py lines 186-265)\<close>

text \<open>
  What the request handler reads from its surroundings: the clock, the configured key,
  the two collaborators, and the local-time rendering of a timestamp
  (\<open>datetime.fromtimestamp(t).isoformat()\<close>).
\<close>

record env =
  current_time :: int
  deepseek_api_key :: "string option"
  fetch_kraken_candles :: "string \<Rightarrow> int \<Rightarrow> int \<Rightarrow> string + candle list"
  post_chat :: "nat \<Rightarrow> analysis_prompt \<Rightarrow> string + string"
  isoformat :: "int \<Rightarrow> string"

text \<open>
  The query: the symbol (with its default), the interval, \<open>None\<close> when \<open>int(...)\<close>
  raises on it, and the date.
\<close>

record request =
  req_symbol :: string
  req_interval :: "int option"
  req_date :: date_arg

record signal_record =
  sr_timestamp :: int
  sr_datetime :: string
  sr_price :: rat
  sr_analysis :: json

record signals_body =
  body_symbol :: string
  body_interval :: int
  total_candles :: nat
  signals :: "signal_record list"

datatype failure =
    BadInterval
  | FetchFailed string
  | PromptFailed prompt_error
  | AnalysisFailed analysis_error

text \<open>The four exits of the handler: 200 with the body, 400, 404, and 500 with the exception.\<close>

datatype response =
    Success signals_body
  | InvalidDate
  | NoCandles
  | ServerError failure

text \<open>
  One signal (lines 235-244 and 247-255): the prompt over \<open>current_candles\<close>, the
  analysis of it, and the record for the candle \<open>c\<close>.
\<close>

definition signal_for :: "env \<Rightarrow> nat \<Rightarrow> candle list \<Rightarrow> candle \<Rightarrow> failure + signal_record" where
  "signal_for e call current_candles c =
     (case generate_analysis_prompt current_candles of
        Inl pe \<Rightarrow> Inl (PromptFailed pe)
      | Inr prompt \<Rightarrow>
          (case get_deepseek_analysis (deepseek_api_key e) (post_chat e) call prompt of
             Inl ae \<Rightarrow> Inl (AnalysisFailed ae)
           | Inr analysis \<Rightarrow>
               Inr \<lparr>sr_timestamp = timestamp c,
                    sr_datetime = isoformat e (timestamp c),
                    sr_price = close c,
                    sr_analysis = analysis\<rparr>))"

text \<open>
  The loop of lines 233-244 over the indices still to visit: \<open>call\<close> counts the
  collaborator calls made so far, \<open>acc\<close> is the list \<open>signals\<close>. An exception leaves
  the loop and drops \<open>acc\<close>.
\<close>

fun replay :: "env \<Rightarrow> candle list \<Rightarrow> nat list \<Rightarrow> nat \<Rightarrow> signal_record list
    \<Rightarrow> failure + signal_record list" where
  "replay e candles [] call acc = Inr acc"
| "replay e candles (i # is) call acc =
     (if i \<ge> 49 then
        (case signal_for e call (take (i + 1) candles) (candles ! i) of
           Inl f \<Rightarrow> Inl f
         | Inr r \<Rightarrow> replay e candles is (Suc call) (acc @ [r]))
      else replay e candles is call acc)"

text \<open>Lines 229-255; \<open>candles\<close> is not empty here.\<close>

definition generate_signals :: "env \<Rightarrow> date_arg \<Rightarrow> candle list \<Rightarrow> failure + signal_record list" where
  "generate_signals e d candles =
     (if d \<noteq> NoDate \<and> length candles > 1
      then replay e candles [0..<length candles] 0 []
      else
        (case signal_for e 0 candles (last candles) of
           Inl f \<Rightarrow> Inl f
         | Inr r \<Rightarrow> Inr [r]))"

text \<open>
  Lines 190-226: the query is read, the window planned and the candles fetched. The
  result is an early response, or the interval and the candles.
\<close>

definition fetch_stage :: "env \<Rightarrow> request \<Rightarrow> response + (int \<times> candle list)" where
  "fetch_stage e req =
     (case req_interval req of
        None \<Rightarrow> Inl (ServerError BadInterval)
      | Some interval \<Rightarrow>
          (case plan_window (current_time e) interval (req_date req) of
             None \<Rightarrow> Inl InvalidDate
           | Some plan \<Rightarrow>
               (case fetch_kraken_candles e (req_symbol req) interval (plan_since plan) of
                  Inl msg \<Rightarrow> Inl (ServerError (FetchFailed msg))
                | Inr candles \<Rightarrow>
                    if candles = [] then Inl NoCandles else Inr (interval, candles))))"

definition get_signals :: "env \<Rightarrow> request \<Rightarrow> response" where
  "get_signals e req =
     (case fetch_stage e req of
        Inl resp \<Rightarrow> resp
      | Inr (interval, candles) \<Rightarrow>
          (case generate_signals e (req_date req) candles of
             Inl f \<Rightarrow> ServerError f
           | Inr sigs \<Rightarrow>
               Success \<lparr>body_symbol = req_symbol req,
                        body_interval = interval,
                        total_candles = length candles,
                        signals = sigs\<rparr>))"


section \<open>Auxiliary notions and test fixtures\<close>

text \<open>The last \<open>w\<close> entries of a list: what the sliding window of \<open>roll\<close> holds.\<close>

definition lastn :: "nat \<Rightarrow> 'a list \<Rightarrow> 'a list" where
  "lastn w ys = drop (length ys - w) ys"

text \<open>
  A fixture for the concrete instances below: \<open>n\<close> hourly candles with increasing
  timestamps, an environment whose market-data collaborator returns them and whose chat
  collaborator answers the call number \<open>call\<close> with \<open>answer call\<close>, a replay request,
  and a valid response body.
\<close>

definition fixture_candle :: "nat \<Rightarrow> candle" where
  "fixture_candle i =
     \<lparr>timestamp = 1700000000 + 3600 * int i, open_price = 100, high = 110, low = 90,
      close = 100 + of_nat i, volume = 5\<rparr>"

definition fixture_candles :: "nat \<Rightarrow> candle list" where
  "fixture_candles n = map fixture_candle [0..<n]"

definition fixture_env :: "nat \<Rightarrow> string option \<Rightarrow> (nat \<Rightarrow> string + string) \<Rightarrow> env" where
  "fixture_env n key answer =
     \<lparr>current_time = 1700300000,
      deepseek_api_key = key,
      fetch_kraken_candles = (\<lambda>symbol interval since. Inr (fixture_candles n)),
      post_chat = (\<lambda>call prompt. answer call),
      isoformat = (\<lambda>t. [])\<rparr>"

definition fixture_request :: request where
  "fixture_request =
     \<lparr>req_symbol = ''XBTUSD'', req_interval = Some 60, req_date = IsoDate 1700000000\<rparr>"

definition hold_body :: string where
  \<open>hold_body = ''{"signal": "HOLD"}''\<close>

definition fixture_prompt :: analysis_prompt where
  "fixture_prompt =
     \<lparr>p_latest = \<lparr>row_candle = fixture_candle 0, row_sma_20 = None, row_sma_50 = None,
                   row_rsi = NaN, row_volume_ma = None\<rparr>,
      p_price_change = Fin 0, p_rel_sma_20 = NaN, p_rel_sma_50 = NaN, p_tail = []\<rparr>"


section \<open>The rolling mean is the mean of the trailing window\<close>

lemma lastn_lastn_append: "lastn w (lastn w a @ b) = lastn w (a @ b)"
proof (cases "length a \<le> w")
  case True
  then show ?thesis by (simp add: lastn_def)
next
  case False
  then have "length a + length b - (length a - w + w) + (length a - w) = length a + length b - w"
    by arith
  then show ?thesis using False by (simp add: lastn_def)
qed

lemma length_roll: "length (roll w win xs) = length xs"
  by (induction xs arbitrary: win) (auto simp: Let_def)

lemma roll_window_step:
  assumes "0 < w" "length win \<le> w"
  shows "(if length win < w then win else tl win) @ [x] = lastn w (win @ [x])"
  using assms by (cases win) (auto simp: lastn_def)

lemma length_lastn: "length (lastn w ys) = min w (length ys)"
  by (auto simp: lastn_def)

lemma roll_nth:
  assumes "0 < w" "length win \<le> w" "i < length xs"
  shows "roll w win xs ! i =
     (let l = lastn w (win @ take (Suc i) xs)
      in if length l < w then None else Some (sum_list l / of_nat w))"
  using assms
proof (induction xs arbitrary: win i)
  case Nil
  then show ?case by simp
next
  case (Cons x xs)
  let ?win' = "lastn w (win @ [x])"
  have step: "(if length win < w then win else tl win) @ [x] = ?win'"
    using Cons.prems by (simp add: roll_window_step)
  have len: "length ?win' \<le> w" by (simp add: length_lastn)
  show ?case
  proof (cases i)
    case 0
    have "length ?win' < w \<or> length ?win' = w" using len by auto
    then show ?thesis using 0 step by (auto simp: Let_def)
  next
    case (Suc j)
    then have j: "j < length xs" using Cons.prems by simp
    have "roll w win (x # xs) ! i = roll w ?win' xs ! j"
      using Suc step by (simp add: Let_def)
    also have "\<dots> = (let l = lastn w (?win' @ take (Suc j) xs)
      in if length l < w then None else Some (sum_list l / of_nat w))"
      using Cons.IH [OF Cons.prems(1) len j] .
    also have "lastn w (?win' @ take (Suc j) xs) = lastn w (win @ take (Suc i) (x # xs))"
      using Suc by (simp add: lastn_lastn_append)
    finally show ?thesis .
  qed
qed

lemma rolling_mean_nth:
  assumes "0 < w" "i < length xs"
  shows "rolling_mean w xs ! i =
     (if Suc i < w then None
      else Some (sum_list (take w (drop (Suc i - w) xs)) / of_nat w))"
proof -
  have l: "lastn w (take (Suc i) xs) = take w (drop (Suc i - w) xs)" if "w \<le> Suc i"
  proof -
    have "length (take (Suc i) xs) = Suc i" using assms by simp
    then have "lastn w (take (Suc i) xs) = drop (Suc i - w) (take (Suc i) xs)"
      by (simp add: lastn_def)
    also have "\<dots> = take (Suc i - (Suc i - w)) (drop (Suc i - w) xs)"
      by (simp add: drop_take)
    also have "Suc i - (Suc i - w) = w" using that by arith
    finally show ?thesis .
  qed
  have "length (lastn w (take (Suc i) xs)) = min w (Suc i)"
    using assms by (simp add: length_lastn min_def)
  then show ?thesis
    using roll_nth [OF assms(1) _ assms(2), of "[]"] l
    by (auto simp: rolling_mean_def Let_def)
qed



lemma length_rolling_mean: "length (rolling_mean w xs) = length xs"
  by (simp add: rolling_mean_def length_roll)

lemma length_diff_from: "length (diff_from p xs) = length xs"
  by (induction xs arbitrary: p) auto

lemma length_diff: "length (diff xs) = length xs"
  by (cases xs) (auto simp: length_diff_from)

lemma where_gt0_nonneg: "0 \<le> where_gt0 d"
  by (auto simp: where_gt0_def split: option.splits)

lemma where_lt0_nonpos: "0 \<le> - where_lt0 d"
  by (auto simp: where_lt0_def split: option.splits)

lemma sum_list_take_drop_nonneg:
  fixes ys :: "rat list"
  assumes "\<forall>y \<in> set ys. 0 \<le> y"
  shows "0 \<le> sum_list (take w (drop j ys))"
proof -
  have "set (take w (drop j ys)) \<subseteq> set ys"
    by (meson set_take_subset set_drop_subset subset_trans)
  then show ?thesis using assms by (intro sum_list_nonneg) auto
qed

lemma rolling_mean_nonneg:
  assumes "0 < w" "i < length ys" "w \<le> Suc i" "\<forall>y \<in> set ys. 0 \<le> y"
  shows "\<exists>m. rolling_mean w ys ! i = Some m \<and> 0 \<le> m"
  using assms rolling_mean_nth [OF assms(1,2)] sum_list_take_drop_nonneg [OF assms(4)]
  by (auto simp: divide_nonneg_nonneg)

lemma rsi_value:
  fixes g l :: rat
  assumes "0 \<le> g" "0 \<le> l"
  shows "xsub (Fin 100) (xdiv (Fin 100) (xadd (Fin 1) (xdiv (Fin g) (Fin l)))) =
           (if l = 0 then (if g = 0 then NaN else Fin 100)
            else Fin (100 - 100 / (1 + g / l)))"
proof -
  have "1 + g / l \<noteq> 0" if "l \<noteq> 0"
  proof -
    have "0 \<le> g / l" using assms by simp
    then show ?thesis by linarith
  qed
  then show ?thesis using assms by (auto simp: xsub_def inf_of_sign_def)
qed

lemma rsi_range:
  fixes g l :: rat
  assumes "0 \<le> g" "0 < l"
  shows "0 \<le> 100 - 100 / (1 + g / l)" "100 - 100 / (1 + g / l) \<le> 100"
proof -
  have q: "0 \<le> g / l" using assms by simp
  then have "1 \<le> 1 + g / l" by simp
  then have "100 / (1 + g / l) \<le> 100 / 1"
    by (intro divide_left_mono) auto
  then show "0 \<le> 100 - 100 / (1 + g / l)" by simp
  have "0 \<le> 100 / (1 + g / l)" using q by simp
  then show "100 - 100 / (1 + g / l) \<le> 100" by simp
qed

lemma calculate_rsi_nth:
  assumes "i < length prices"
  shows "calculate_rsi prices p ! i =
     xsub (Fin 100) (xdiv (Fin 100) (xadd (Fin 1)
       (xdiv (of_opt (rsi_gain prices p ! i)) (of_opt (rsi_loss prices p ! i)))))"
  using assms
  by (simp add: calculate_rsi_def Let_def rsi_gain_def rsi_loss_def
      length_rolling_mean length_diff)


section \<open>Facts about the JSON decoder\<close>

text \<open>
  More fuel never changes a decoded value, and a value is decoded with no more fuel than
  the number of characters it takes up.
\<close>

lemma scan_fuel_mono:
  "scan_once n s = Some r \<Longrightarrow> scan_once (Suc n) s = Some r"
  "scan_array n acc s = Some r \<Longrightarrow> scan_array (Suc n) acc s = Some r"
  "scan_object n acc' s = Some r \<Longrightarrow> scan_object (Suc n) acc' s = Some r"
proof (induction n s and n acc s and n acc' s arbitrary: r and r and r
    rule: scan_once_scan_array_scan_object.induct)
  case (1 s)
  then show ?case by simp
next
  case (2 n s)
  show ?case
  proof (cases s)
    case Nil
    then show ?thesis using "2.prems" by simp
  next
    case (Cons c t)
    consider "c = CHR 0x22" | "c = CHR ''{''" | "c = CHR ''[''"
      | "c \<noteq> CHR 0x22" "c \<noteq> CHR ''{''" "c \<noteq> CHR ''[''"
      by blast
    then show ?thesis
    proof cases
      case 1
      then show ?thesis using "2.prems" Cons by simp
    next
      case 2
      then show ?thesis
        using "2.prems" "2.IH"(1) [OF Cons] Cons
        by (auto split: list.splits if_splits simp del: scan_object.simps)
    next
      case 3
      then show ?thesis
        using "2.prems" "2.IH"(2) [OF Cons] Cons
        by (auto split: list.splits if_splits simp del: scan_array.simps)
    next
      case 4
      then show ?thesis using "2.prems" Cons by simp
    qed
  qed
next
  case (3 acc s)
  then show ?case by simp
next
  case (4 n acc s)
  from "4.prems" obtain v t where a: "scan_once n s = Some (v, t)"
    by (auto split: option.splits)
  then have b: "scan_once (Suc n) s = Some (v, t)" using "4.IH"(1) by blast
  have c: "scan_array n (acc @ [v]) u = Some r \<Longrightarrow> scan_array (Suc n) (acc @ [v]) u = Some r"
    if "skip_ws t = d # r'" "d \<noteq> CHR '']''" "d = CHR '',''" "u = skip_ws r'" for d r' u
    using "4.IH"(2) [OF a refl that(1,2,3)] that(4) by blast
  have "scan_array (Suc n) acc s =
      (case skip_ws t of [] \<Rightarrow> None
       | d # r' \<Rightarrow> if d = CHR '']'' then Some (JArray (acc @ [v]), r')
                  else if d = CHR '','' then scan_array n (acc @ [v]) (skip_ws r') else None)"
    using a by simp
  moreover have "scan_array (Suc (Suc n)) acc s =
      (case skip_ws t of [] \<Rightarrow> None
       | d # r' \<Rightarrow> if d = CHR '']'' then Some (JArray (acc @ [v]), r')
                  else if d = CHR '','' then scan_array (Suc n) (acc @ [v]) (skip_ws r') else None)"
    using b by (subst scan_array.simps) simp
  ultimately show ?case
    using "4.prems" c by (auto split: list.splits if_splits simp del: scan_array.simps scan_once.simps)
next
  case (5 acc s)
  then show ?case by simp
next
  case (6 n acc s)
  from "6.prems" obtain k r0 where k: "scanstring s [] = Some (k, r0)"
    by (auto split: option.splits)
  from "6.prems" k obtain c r1 where r1: "skip_ws r0 = c # r1" "c = CHR '':''"
    by (auto split: option.splits list.splits if_splits)
  then have nc: "\<not> c \<noteq> CHR '':''" by simp
  from "6.prems" k r1 obtain v r2 where a: "scan_once n (skip_ws r1) = Some (v, r2)"
    by (auto split: option.splits)
  then have b: "scan_once (Suc n) (skip_ws r1) = Some (v, r2)"
    using "6.IH"(1) [OF k refl r1(1) nc] by blast
  have c: "scan_object n (dict_set acc k v) r4 = Some r
      \<Longrightarrow> scan_object (Suc n) (dict_set acc k v) r4 = Some r"
    if "skip_ws r2 = d # r3" "d \<noteq> CHR ''}''" "d = CHR '',''" "skip_ws r3 = q # r4" "q = CHR 0x22"
    for d r3 q r4
    using "6.IH"(2) [OF k refl r1(1) nc a refl that] by blast
  have "scan_object (Suc n) acc s =
      (case skip_ws r2 of [] \<Rightarrow> None
       | d # r3 \<Rightarrow>
           if d = CHR ''}'' then Some (JObject (dict_set acc k v), r3)
           else if d = CHR '','' then
             (case skip_ws r3 of [] \<Rightarrow> None
              | q # r4 \<Rightarrow> if q = CHR 0x22 then scan_object n (dict_set acc k v) r4 else None)
           else None)"
    using k r1 a by simp
  moreover have "scan_object (Suc (Suc n)) acc s =
      (case skip_ws r2 of [] \<Rightarrow> None
       | d # r3 \<Rightarrow>
           if d = CHR ''}'' then Some (JObject (dict_set acc k v), r3)
           else if d = CHR '','' then
             (case skip_ws r3 of [] \<Rightarrow> None
              | q # r4 \<Rightarrow> if q = CHR 0x22 then scan_object (Suc n) (dict_set acc k v) r4 else None)
           else None)"
    using k r1 b by (subst scan_object.simps) simp
  ultimately show ?case
    using "6.prems" c
    by (auto split: list.splits if_splits simp del: scan_object.simps scan_once.simps)
qed


lemma scan_fuel_mono_ge:
  assumes "n \<le> m"
  shows "scan_once n s = Some r \<Longrightarrow> scan_once m s = Some r"
    and "scan_array n acc s = Some r \<Longrightarrow> scan_array m acc s = Some r"
    and "scan_object n acc' s = Some r \<Longrightarrow> scan_object m acc' s = Some r"
  using assms
proof (induction m)
  case 0
  {
    case 1 then show ?case by simp
  next
    case 2 then show ?case by simp
  next
    case 3 then show ?case by simp
  }
next
  case (Suc m)
  {
    case 1
    then show ?case using Suc(1) scan_fuel_mono(1) by (cases "n = Suc m") auto
  next
    case 2
    then show ?case using Suc(2) scan_fuel_mono(2) by (cases "n = Suc m") auto
  next
    case 3
    then show ?case using Suc(3) scan_fuel_mono(3) by (cases "n = Suc m") auto
  }
qed

lemma length_skip_ws: "length (skip_ws s) \<le> length s"
  by (simp add: skip_ws_def length_dropWhile_le)

lemma scanstring_shorter:
  "scanstring s acc = Some (k, r) \<Longrightarrow> length r < length s"
proof (induction s acc arbitrary: k r rule: scanstring.induct)
  case (1 acc)
  then show ?case by simp
next
  case (2 c cs acc)
  then show ?case
    by (fastforce split: if_splits list.splits option.splits prod.splits)
qed


lemma scan_int_part_shorter:
  "scan_int_part s = Some (ip, r) \<Longrightarrow> length r < length s"
proof (cases s)
  case Nil
  assume "scan_int_part s = Some (ip, r)"
  then show ?thesis using Nil by (simp add: scan_int_part_def)
next
  case (Cons c cs)
  assume a: "scan_int_part s = Some (ip, r)"
  have "length (dropWhile is_digit cs) \<le> length cs" by (rule length_dropWhile_le)
  then show ?thesis
    using a Cons by (auto simp: scan_int_part_def split: if_splits)
qed

lemma scan_frac_le: "scan_frac s = (fr, r) \<Longrightarrow> length r \<le> length s"
proof -
  have d: "length (dropWhile is_digit t) \<le> length t" for t
    by (rule length_dropWhile_le)
  assume "scan_frac s = (fr, r)"
  then show ?thesis
    using d [of "tl (tl s)"] le_SucI
    by (auto simp: scan_frac_def split: list.splits if_splits)
qed

lemma scan_exp_le: "scan_exp s = (ex, r) \<Longrightarrow> length r \<le> length s"
proof -
  have d: "length (dropWhile is_digit t) \<le> length t" for t
    by (rule length_dropWhile_le)
  assume "scan_exp s = (ex, r)"
  then show ?thesis
    using d [of "tl s"] d [of "tl (tl s)"] le_SucI
    by (auto simp: scan_exp_def Let_def split: list.splits if_splits prod.splits)
qed

lemma scan_number_shorter:
  assumes "scan_number s = Some (v, r)"
  shows "length r < length s"
proof -
  obtain neg s1 where n: "(case s of [] \<Rightarrow> (False, s)
      | c # cs \<Rightarrow> if c = CHR ''-'' then (True, cs) else (False, s)) = (neg, s1)"
    by (cases "(case s of [] \<Rightarrow> (False, s)
      | c # cs \<Rightarrow> if c = CHR ''-'' then (True, cs) else (False, s))") auto
  then have l1: "length s1 \<le> length s"
    by (auto split: list.splits if_splits)
  from assms n obtain ip s2 where i: "scan_int_part s1 = Some (ip, s2)"
    by (auto simp: scan_number_def split: option.splits)
  obtain fr s3 where f: "scan_frac s2 = (fr, s3)" by (cases "scan_frac s2") auto
  obtain ex s4 where e: "scan_exp s3 = (ex, s4)" by (cases "scan_exp s3") auto
  have "r = s4"
    using assms n i f e by (auto simp: scan_number_def split: if_splits)
  then show ?thesis
    using l1 scan_int_part_shorter [OF i] scan_frac_le [OF f] scan_exp_le [OF e] by simp
qed

lemma prefix_drop_shorter:
  "prefix p s \<Longrightarrow> p \<noteq> [] \<Longrightarrow> length (drop (length p) s) < length s"
  by (cases s) (auto dest: prefix_length_le)

lemma scan_constant_shorter:
  "scan_constant s = Some (v, r) \<Longrightarrow> length r < length s"
  using prefix_drop_shorter [of "''NaN''" s] prefix_drop_shorter [of "''Infinity''" s]
    prefix_drop_shorter [of "''-Infinity''" s]
  by (auto simp: scan_constant_def split: if_splits)

lemma scan_literal_shorter:
  "scan_literal s = Some (v, r) \<Longrightarrow> length r < length s"
  using prefix_drop_shorter [of "''null''" s] prefix_drop_shorter [of "''true''" s]
    prefix_drop_shorter [of "''false''" s] scan_number_shorter [of s v r]
    scan_constant_shorter [of s v r]
  by (auto simp: scan_literal_def split: if_splits option.splits)


lemma scan_fuel_consumed:
  "scan_once n s = Some (v, r) \<Longrightarrow>
     length r < length s \<and> scan_once (length s - length r) s = Some (v, r)"
  "scan_array n acc s = Some (v, r) \<Longrightarrow>
     length r < length s \<and> scan_array (length s - length r) acc s = Some (v, r)"
  "scan_object n acc' s = Some (v, r) \<Longrightarrow>
     length r < length s \<and> scan_object (length s - length r) acc' s = Some (v, r)"
proof (induction n s and n acc s and n acc' s arbitrary: v r and v r and v r
    rule: scan_once_scan_array_scan_object.induct)
  case (1 s)
  then show ?case by simp
next
  case (2 n s)
  from "2.prems" obtain c t where s: "s = c # t" by (cases s) auto
  consider (str) "c = CHR 0x22"
    | (obj) "c \<noteq> CHR 0x22" "c = CHR ''{''"
    | (arr) "c \<noteq> CHR 0x22" "c \<noteq> CHR ''{''" "c = CHR ''[''"
    | (lit) "c \<noteq> CHR 0x22" "c \<noteq> CHR ''{''" "c \<noteq> CHR ''[''"
    by blast
  then show ?case
  proof cases
    case str
    from "2.prems" s str obtain k where k: "scanstring t [] = Some (k, r)" "v = JString k"
      by (auto split: option.splits)
    have l: "length r < length s" using scanstring_shorter [OF k(1)] s by simp
    then obtain m where m: "length s - length r = Suc m" by (metis Suc_diff_Suc)
    show ?thesis using l m s str k by simp
  next
    case obj
    from "2.prems" s obj obtain d r' where d: "skip_ws t = d # r'"
      by (auto split: list.splits)
    have lr': "length r' < length t" using length_skip_ws [of t] d by simp
    show ?thesis
    proof (cases "d = CHR ''}''")
      case True
      then have "r = r'" "v = JObject []" using "2.prems" s obj d by auto
      moreover obtain m where "length s - length r' = Suc m"
        using lr' s by (metis Suc_diff_Suc length_Cons less_Suc_eq)
      ultimately show ?thesis using lr' s obj d True by simp
    next
      case False
      then have q: "d = CHR 0x22" and o: "scan_object n [] r' = Some (v, r)"
        using "2.prems" s obj d by (auto split: if_splits)
      from "2.IH"(1) [OF s obj d False q o]
      have ih: "length r < length r'" "scan_object (length r' - length r) [] r' = Some (v, r)"
        by auto
      have l: "length r < length s" using ih(1) lr' s by simp
      then obtain m where m: "length s - length r = Suc m" by (metis Suc_diff_Suc)
      then have "length r' - length r \<le> m" using lr' s by simp
      then have "scan_object m [] r' = Some (v, r)"
        using scan_fuel_mono_ge(3) ih(2) by blast
      then show ?thesis using l m s obj d False q by simp
    qed
  next
    case arr
    from "2.prems" s arr obtain d r' where d: "skip_ws t = d # r'"
      by (auto split: list.splits)
    have lr': "length r' < length t" using length_skip_ws [of t] d by simp
    show ?thesis
    proof (cases "d = CHR '']''")
      case True
      then have "r = r'" "v = JArray []" using "2.prems" s arr d by auto
      moreover obtain m where "length s - length r' = Suc m"
        using lr' s by (metis Suc_diff_Suc length_Cons less_Suc_eq)
      ultimately show ?thesis using lr' s arr d True by simp
    next
      case False
      then have o: "scan_array n [] (d # r') = Some (v, r)"
        using "2.prems" s arr d by (auto split: if_splits)
      from "2.IH"(2) [OF s arr d False o]
      have ih: "length r < length (d # r')"
        "scan_array (length (d # r') - length r) [] (d # r') = Some (v, r)"
        by auto
      have l: "length r < length s" using ih(1) lr' s by simp
      then obtain m where m: "length s - length r = Suc m" by (metis Suc_diff_Suc)
      then have "length (d # r') - length r \<le> m" using lr' s by simp
      then have "scan_array m [] (d # r') = Some (v, r)"
        using scan_fuel_mono_ge(2) ih(2) by blast
      then show ?thesis using l m s arr d False by simp
    qed
  next
    case lit
    then have k: "scan_literal s = Some (v, r)" using "2.prems" s by simp
    have l: "length r < length s" by (rule scan_literal_shorter [OF k])
    then obtain m where m: "length s - length r = Suc m" by (metis Suc_diff_Suc)
    show ?thesis using l m s lit k by simp
  qed
next
  case (3 acc s)
  then show ?case by simp
next
  case (4 n acc s)
  from "4.prems" obtain v1 t where a: "scan_once n s = Some (v1, t)"
    by (auto split: option.splits)
  from "4.IH"(1) [OF a]
  have ih1: "length t < length s" "scan_once (length s - length t) s = Some (v1, t)"
    by auto
  from "4.prems" a obtain d r' where d: "skip_ws t = d # r'"
    by (auto split: list.splits)
  have lr': "length r' < length t" using length_skip_ws [of t] d by simp
  have unfold: "scan_array (Suc m) acc s =
      (if d = CHR '']'' then Some (JArray (acc @ [v1]), r')
       else if d = CHR '','' then scan_array m (acc @ [v1]) (skip_ws r') else None)"
    if "length s - length t \<le> m" for m
  proof -
    have "scan_once m s = Some (v1, t)"
      using scan_fuel_mono_ge(1) [OF that] ih1(2) by blast
    then show ?thesis using d by simp
  qed
  show ?case
  proof (cases "d = CHR '']''")
    case True
    then have e: "r = r'" "v = JArray (acc @ [v1])" using "4.prems" a d by auto
    have l: "length r < length s" using e lr' ih1(1) by simp
    then obtain m where m: "length s - length r = Suc m" by (metis Suc_diff_Suc)
    then have "length s - length t \<le> m" using e lr' ih1(1) by simp
    then show ?thesis using unfold [of m] l m e True by simp
  next
    case False
    then have c: "d = CHR '',''"
      and o: "scan_array n (acc @ [v1]) (skip_ws r') = Some (v, r)"
      using "4.prems" a d by (auto split: if_splits)
    from "4.IH"(2) [OF a refl d False c o]
    have ih2: "length r < length (skip_ws r')"
      "scan_array (length (skip_ws r') - length r) (acc @ [v1]) (skip_ws r') = Some (v, r)"
      by auto
    have lw: "length (skip_ws r') \<le> length r'" by (rule length_skip_ws)
    have l: "length r < length s" using ih2(1) lw lr' ih1(1) by simp
    then obtain m where m: "length s - length r = Suc m" by (metis Suc_diff_Suc)
    have m1: "length s - length t \<le> m" using m ih2(1) lw lr' ih1(1) by simp
    have m2: "length (skip_ws r') - length r \<le> m" using m ih2(1) lw lr' ih1(1) by simp
    have "scan_array m (acc @ [v1]) (skip_ws r') = Some (v, r)"
      using scan_fuel_mono_ge(2) [OF m2] ih2(2) by blast
    then show ?thesis using unfold [OF m1] l m False c by simp
  qed
next
  case (5 acc s)
  then show ?case by simp
next
  case (6 n acc s)
  from "6.prems" obtain k r0 where k: "scanstring s [] = Some (k, r0)"
    by (auto split: option.splits)
  have l0: "length r0 < length s" by (rule scanstring_shorter [OF k])
  from "6.prems" k obtain c r1 where r1: "skip_ws r0 = c # r1" "c = CHR '':''"
    by (auto split: option.splits list.splits if_splits)
  then have nc: "\<not> c \<noteq> CHR '':''" by simp
  have l1: "length r1 < length r0" using length_skip_ws [of r0] r1 by simp
  from "6.prems" k r1 obtain v1 r2 where a: "scan_once n (skip_ws r1) = Some (v1, r2)"
    by (auto split: option.splits)
  from "6.IH"(1) [OF k refl r1(1) nc a]
  have ih1: "length r2 < length (skip_ws r1)"
    "scan_once (length (skip_ws r1) - length r2) (skip_ws r1) = Some (v1, r2)"
    by auto
  have lw1: "length (skip_ws r1) \<le> length r1" by (rule length_skip_ws)
  from "6.prems" k r1 a obtain d r3 where d: "skip_ws r2 = d # r3"
    by (auto split: list.splits)
  have l3: "length r3 < length r2" using length_skip_ws [of r2] d by simp
  have unfold: "scan_object (Suc m) acc s =
      (if d = CHR ''}'' then Some (JObject (dict_set acc k v1), r3)
       else if d = CHR '','' then
         (case skip_ws r3 of [] \<Rightarrow> None
          | q # r4 \<Rightarrow> if q = CHR 0x22 then scan_object m (dict_set acc k v1) r4 else None)
       else None)"
    if "length (skip_ws r1) - length r2 \<le> m" for m
  proof -
    have "scan_once m (skip_ws r1) = Some (v1, r2)"
      using scan_fuel_mono_ge(1) [OF that] ih1(2) by blast
    then show ?thesis using k r1 d by simp
  qed
  show ?case
  proof (cases "d = CHR ''}''")
    case True
    then have e: "r = r3" "v = JObject (dict_set acc k v1)"
      using "6.prems" k r1 a d by auto
    have l: "length r < length s" using e l3 ih1(1) lw1 l1 l0 by simp
    then obtain m where m: "length s - length r = Suc m" by (metis Suc_diff_Suc)
    then have "length (skip_ws r1) - length r2 \<le> m" using e l3 ih1(1) lw1 l1 l0 by simp
    then show ?thesis using unfold [of m] l m e True by simp
  next
    case False
    then have c: "d = CHR '',''" using "6.prems" k r1 a d by (auto split: if_splits)
    from "6.prems" k r1 a d False c obtain q r4 where q: "skip_ws r3 = q # r4" "q = CHR 0x22"
      by (auto split: list.splits if_splits)
    have o: "scan_object n (dict_set acc k v1) r4 = Some (v, r)"
      using "6.prems" k r1 a d False c q by simp
    from "6.IH"(2) [OF k refl r1(1) nc a refl d False c q o]
    have ih2: "length r < length r4"
      "scan_object (length r4 - length r) (dict_set acc k v1) r4 = Some (v, r)"
      by auto
    have l4: "length r4 < length r3" using length_skip_ws [of r3] q by simp
    have l: "length r < length s" using ih2(1) l4 l3 ih1(1) lw1 l1 l0 by simp
    then obtain m where m: "length s - length r = Suc m" by (metis Suc_diff_Suc)
    have m1: "length (skip_ws r1) - length r2 \<le> m"
      using m ih2(1) l4 l3 ih1(1) lw1 l1 l0 by simp
    have m2: "length r4 - length r \<le> m"
      using m ih2(1) l4 l3 ih1(1) lw1 l1 l0 by simp
    have "scan_object m (dict_set acc k v1) r4 = Some (v, r)"
      using scan_fuel_mono_ge(3) [OF m2] ih2(2) by blast
    then show ?thesis using unfold [OF m1] l m False c q by simp
  qed
qed

text \<open>The fuel that \<open>json_loads\<close> provides is enough: more fuel decodes nothing more.\<close>

lemma json_loads_fuel_adequate:
  "scan_once n (skip_ws s) = Some (v, r) \<Longrightarrow> scan_once (Suc (length s)) (skip_ws s) = Some (v, r)"
proof -
  assume a: "scan_once n (skip_ws s) = Some (v, r)"
  from scan_fuel_consumed(1) [OF a]
  have "scan_once (length (skip_ws s) - length r) (skip_ws s) = Some (v, r)" by simp
  moreover have "length (skip_ws s) - length r \<le> Suc (length s)"
    using length_skip_ws [of s] by simp
  ultimately show ?thesis using scan_fuel_mono_ge(1) by blast
qed


section \<open>Facts about the string operations\<close>

lemma find_str_prefix: "prefix sub s \<Longrightarrow> find_str sub s = Some 0"
  by (cases s) auto

lemma find_str_skip_chars:
  assumes "sub \<noteq> []" "hd sub \<notin> set a"
  shows "find_str sub (a @ r) = map_option (\<lambda>k. length a + k) (find_str sub r)"
  using assms
proof (induction a)
  case Nil
  then show ?case by (simp add: option.map_ident)
next
  case (Cons x a)
  have "\<not> prefix sub (x # a @ r)"
    using Cons.prems by (cases sub) auto
  then show ?case using Cons by (simp add: option.map_comp comp_def)
qed

lemma not_prefix_of_free_block:
  assumes "\<not> contains_str sub x" "x \<noteq> []" "last x \<notin> set sub"
  shows "\<not> prefix sub (x @ r)"
proof
  assume "prefix sub (x @ r)"
  then consider "prefix sub x" | us where "sub = x @ us"
    by (auto simp: prefix_append)
  then show False
  proof cases
    case 1
    then show ?thesis using assms(1) by (simp add: contains_str_def find_str_prefix)
  next
    case 2
    then have "last x \<in> set sub" using assms(2) by simp
    then show ?thesis using assms(3) by simp
  qed
qed

lemma contains_str_Cons: "contains_str sub x \<Longrightarrow> contains_str sub (c # x)"
  by (auto simp: contains_str_def)

lemma find_str_skip_block:
  assumes "\<not> contains_str sub x" "x \<noteq> []" "last x \<notin> set sub"
  shows "find_str sub (x @ r) = map_option (\<lambda>k. length x + k) (find_str sub r)"
  using assms
proof (induction x)
  case Nil
  then show ?case by simp
next
  case (Cons c x)
  have np: "\<not> prefix sub (c # x @ r)"
    using not_prefix_of_free_block [OF Cons.prems, of r] by simp
  show ?case
  proof (cases "x = []")
    case True
    then show ?thesis using np by (simp add: option.map_comp comp_def)
  next
    case False
    have "\<not> contains_str sub x" using Cons.prems(1) contains_str_Cons by blast
    moreover have "last x \<notin> set sub" using Cons.prems(3) False by simp
    ultimately have "find_str sub (x @ r) = map_option (\<lambda>k. length x + k) (find_str sub r)"
      using Cons.IH False by blast
    then show ?thesis using np by (simp add: option.map_comp comp_def)
  qed
qed

lemma contains_str_prefix_mono:
  assumes "prefix a b" "contains_str b s"
  shows "contains_str a s"
  using assms(2)
proof (induction s)
  case Nil
  then have "b = []" by (simp add: contains_str_def split: if_splits)
  then show ?case using assms(1) by (simp add: contains_str_def)
next
  case (Cons c s)
  show ?case
  proof (cases "prefix b (c # s)")
    case True
    then have "prefix a (c # s)" using assms(1) by (rule prefix_order.trans[rotated])
    then show ?thesis by (simp add: contains_str_def)
  next
    case False
    then have "contains_str b s" using Cons.prems by (auto simp: contains_str_def)
    then show ?thesis using Cons.IH contains_str_Cons by blast
  qed
qed

lemma py_split_first:
  assumes "sep \<noteq> []"
  shows "py_split sep s ! 0 = (case find_str sep s of None \<Rightarrow> s | Some k \<Rightarrow> take k s)"
  using assms by (subst py_split.simps) (simp split: option.splits)

lemma py_split_second:
  assumes "sep \<noteq> []" "find_str sep s = Some k"
  shows "py_split sep s ! 1 = py_split sep (drop (k + length sep) s) ! 0"
  using assms by (subst py_split.simps) simp

lemma py_split_nonempty: "py_split sep s \<noteq> []"
  by (subst py_split.simps) (simp split: option.splits)

lemma py_split_length:
  assumes "sep \<noteq> []" "contains_str sep s"
  shows "2 \<le> length (py_split sep s)"
proof -
  obtain k where k: "find_str sep s = Some k"
    using assms(2) by (auto simp: contains_str_def)
  have "0 < length (py_split sep (drop (k + length sep) s))"
    using py_split_nonempty by blast
  then show ?thesis using assms(1) k by (subst py_split.simps) (simp add: Suc_le_eq)
qed

lemma py_strip_padded:
  assumes "\<forall>c \<in> set ws1. is_space c" "\<forall>c \<in> set ws2. is_space c"
    and "J \<noteq> []" "\<not> is_space (hd J)" "\<not> is_space (last J)"
  shows "py_strip (ws1 @ J @ ws2) = J"
proof -
  have a: "dropWhile is_space (ws1 @ J @ ws2) = J @ ws2"
    using assms(1,3,4) by (cases J) (auto simp: dropWhile_append)
  have "dropWhile is_space (rev ws2 @ rev J) = dropWhile is_space (rev J)"
    using assms(2) by (simp add: dropWhile_append)
  also have "\<dots> = rev J"
    using assms(3,5) by (cases "rev J") (auto simp: last_rev hd_rev)
  finally show ?thesis using a by (simp add: py_strip_def)
qed

lemma brace_search_embedded:
  assumes "CHR ''{'' \<notin> set pre" "CHR ''}'' \<notin> set post"
    and "J \<noteq> []" "hd J = CHR ''{''" "last J = CHR ''}''"
  shows "brace_search (pre @ J @ post) = Some J"
proof -
  have a: "dropWhile (\<lambda>c. c \<noteq> CHR ''{'') (pre @ J @ post) = J @ post"
    using assms(1,3,4) by (cases J) (auto simp: dropWhile_append)
  have b: "CHR ''}'' \<in> set (J @ post)"
    using assms(3,5) last_in_set [of J] by auto
  have "dropWhile (\<lambda>c. c \<noteq> CHR ''}'') (rev post @ rev J) = dropWhile (\<lambda>c. c \<noteq> CHR ''}'') (rev J)"
    using assms(2) by (simp add: dropWhile_append)
  also have "\<dots> = rev J"
    using assms(3,5) by (cases "rev J") (auto simp: hd_rev)
  finally show ?thesis using a b by (simp add: brace_search_def Let_def)
qed


lemma space_not_backtick: "is_space c \<Longrightarrow> c \<noteq> CHR 0x60"
  by (auto simp: is_space_def)

lemma space_not_brace: "is_space c \<Longrightarrow> c \<noteq> CHR ''{'' \<and> c \<noteq> CHR ''}''"
  by (auto simp: is_space_def)

text \<open>The closing fence is the first fence after a padded fence-free block.\<close>

lemma find_fence_after_block:
  assumes ws: "\<forall>c \<in> set ws1. is_space c" "\<forall>c \<in> set ws2. is_space c"
    and J: "J \<noteq> []" "last J = CHR ''}''" "\<not> contains_str ''```'' J"
  shows "find_str ''```'' (ws1 @ J @ ws2 @ r) =
           map_option (\<lambda>k. length (ws1 @ J @ ws2) + k) (find_str ''```'' r)"
proof -
  have b1: "hd ''```'' \<notin> set ws1" and b2: "hd ''```'' \<notin> set ws2"
    using ws space_not_backtick by auto
  have l: "last J \<notin> set ''```''" using J(2) by simp
  have "find_str ''```'' (ws1 @ J @ ws2 @ r) =
      map_option (\<lambda>k. length ws1 + k) (find_str ''```'' (J @ ws2 @ r))"
    by (rule find_str_skip_chars [OF _ b1]) simp
  also have "find_str ''```'' (J @ ws2 @ r) =
      map_option (\<lambda>k. length J + k) (find_str ''```'' (ws2 @ r))"
    by (rule find_str_skip_block [OF J(3) J(1) l])
  also have "find_str ''```'' (ws2 @ r) =
      map_option (\<lambda>k. length ws2 + k) (find_str ''```'' r)"
    by (rule find_str_skip_chars [OF _ b2]) simp
  finally show ?thesis
    by (simp add: option.map_comp comp_def add.assoc)
qed

lemma fenced_block_extracted:
  assumes ws: "\<forall>c \<in> set ws1. is_space c" "\<forall>c \<in> set ws2. is_space c"
    and J: "J \<noteq> []" "hd J = CHR ''{''" "last J = CHR ''}''" "\<not> contains_str ''```'' J"
  shows "py_strip (py_split ''```'' (ws1 @ J @ ws2 @ ''```'' @ post) ! 0) = J"
    and "py_strip (py_split ''```'' (ws1 @ J @ ws2) ! 0) = J"
proof -
  have sp: "\<not> is_space (hd J)" "\<not> is_space (last J)"
    using J(2,3) space_not_brace by auto
  have strip: "py_strip (ws1 @ J @ ws2) = J"
    by (rule py_strip_padded [OF ws J(1) sp])
  have "find_str ''```'' (ws1 @ J @ ws2 @ ''```'' @ post) = Some (length (ws1 @ J @ ws2))"
    using find_fence_after_block [OF ws J(1,3,4), of "''```'' @ post"]
    by (simp add: find_str_prefix)
  then have "py_split ''```'' (ws1 @ J @ ws2 @ ''```'' @ post) ! 0 = ws1 @ J @ ws2"
    by (simp add: py_split_first)
  then show "py_strip (py_split ''```'' (ws1 @ J @ ws2 @ ''```'' @ post) ! 0) = J"
    using strip by simp
  have "find_str ''```'' (ws1 @ J @ ws2 @ []) = None"
    using find_fence_after_block [OF ws J(1,3,4), of "[]"] by simp
  then have "py_split ''```'' (ws1 @ J @ ws2) ! 0 = ws1 @ J @ ws2"
    by (simp add: py_split_first)
  then show "py_strip (py_split ''```'' (ws1 @ J @ ws2) ! 0) = J"
    using strip by simp
qed

lemma no_fence_no_json_fence: "\<not> contains_str ''```'' s \<Longrightarrow> \<not> contains_str ''```json'' s"
  using contains_str_prefix_mono [of "''```''" "''```json''" s] by auto

lemma parse_raw:
  assumes "json_loads J = Some v" "\<not> contains_str ''```'' J"
  shows "parse_content J = Inr v"
  using assms no_fence_no_json_fence [OF assms(2)]
  by (simp add: parse_content_def fenced_json_str_def)

lemma parse_json_fence:
  assumes v: "json_loads J = Some v"
    and ws: "\<forall>c \<in> set ws1. is_space c" "\<forall>c \<in> set ws2. is_space c"
    and J: "J \<noteq> []" "hd J = CHR ''{''" "last J = CHR ''}''" "\<not> contains_str ''```'' J"
    and pre: "CHR 0x60 \<notin> set pre"
    and once: "\<not> contains_str ''```json'' (ws1 @ J @ ws2 @ ''```'' @ post)"
  shows "parse_content (pre @ ''```json'' @ ws1 @ J @ ws2 @ ''```'' @ post) = Inr v"
proof -
  let ?R = "ws1 @ J @ ws2 @ ''```'' @ post"
  let ?C = "pre @ ''```json'' @ ?R"
  have f: "find_str ''```json'' ?C = Some (length pre)"
    using find_str_skip_chars [of "''```json''" pre "''```json'' @ ?R"] pre
    by (simp add: find_str_prefix)
  then have c: "contains_str ''```json'' ?C" by (simp add: contains_str_def)
  have "py_split ''```json'' ?C ! 1 = py_split ''```json'' ?R ! 0"
    using py_split_second [OF _ f] by simp
  also have "\<dots> = ?R"
    using once by (simp add: py_split_first contains_str_def)
  finally have "fenced_json_str ?C = py_strip (py_split ''```'' ?R ! 0)"
    using c by (simp add: fenced_json_str_def)
  then have "fenced_json_str ?C = J"
    using fenced_block_extracted(1) [OF ws J] by simp
  then show ?thesis using v by (simp add: parse_content_def)
qed

lemma parse_generic_fence:
  assumes v: "json_loads J = Some v"
    and ws: "\<forall>c \<in> set ws1. is_space c" "\<forall>c \<in> set ws2. is_space c"
    and J: "J \<noteq> []" "hd J = CHR ''{''" "last J = CHR ''}''" "\<not> contains_str ''```'' J"
    and pre: "CHR 0x60 \<notin> set pre"
    and untagged: "\<not> contains_str ''```json'' (pre @ ''```'' @ ws1 @ J @ ws2 @ ''```'' @ post)"
  shows "parse_content (pre @ ''```'' @ ws1 @ J @ ws2 @ ''```'' @ post) = Inr v"
proof -
  let ?R = "ws1 @ J @ ws2 @ ''```'' @ post"
  let ?C = "pre @ ''```'' @ ?R"
  have f: "find_str ''```'' ?C = Some (length pre)"
    using find_str_skip_chars [of "''```''" pre "''```'' @ ?R"] pre
    by (simp add: find_str_prefix)
  then have c: "contains_str ''```'' ?C" by (simp add: contains_str_def)
  have fR: "find_str ''```'' ?R = Some (length (ws1 @ J @ ws2))"
    using find_fence_after_block [OF ws J(1,3,4), of "''```'' @ post"]
    by (simp add: find_str_prefix)
  have "py_split ''```'' ?C ! 1 = py_split ''```'' ?R ! 0"
    using py_split_second [OF _ f] by simp
  also have "\<dots> = ws1 @ J @ ws2"
    using fR by (simp add: py_split_first)
  finally have "fenced_json_str ?C = py_strip (py_split ''```'' (ws1 @ J @ ws2) ! 0)"
    using c untagged by (simp add: fenced_json_str_def)
  then have "fenced_json_str ?C = J"
    using fenced_block_extracted(2) [OF ws J] by simp
  then show ?thesis using v by (simp add: parse_content_def)
qed

lemma parse_prose:
  assumes v: "json_loads J = Some v"
    and J: "J \<noteq> []" "hd J = CHR ''{''" "last J = CHR ''}''"
    and pre: "CHR ''{'' \<notin> set pre" and post: "CHR ''}'' \<notin> set post"
    and nofence: "\<not> contains_str ''```'' (pre @ J @ post)"
    and prose: "json_loads (pre @ J @ post) = None"
  shows "parse_content (pre @ J @ post) = Inr v"
  using v prose nofence no_fence_no_json_fence [OF nofence]
    brace_search_embedded [OF pre post J]
  by (simp add: parse_content_def fenced_json_str_def)


section \<open>Facts about the prompt builder and the replay loop\<close>

lemma length_calculate_rsi: "length (calculate_rsi prices p) = length prices"
  by (simp add: calculate_rsi_def Let_def rsi_gain_def rsi_loss_def
      length_rolling_mean length_diff)



lemma generate_analysis_prompt_total:
  "candles \<noteq> [] \<Longrightarrow> \<exists>p. generate_analysis_prompt candles = Inr p"
  by (simp add: generate_analysis_prompt_def Let_def)


lemma filter_ge_upt: "filter (\<lambda>i. k \<le> i) [0..<n] = [k..<n]"
proof (induction n)
  case 0
  then show ?case by simp
next
  case (Suc n)
  then show ?case by (cases "k \<le> n") auto
qed

lemma replay_skip:
  "\<forall>i \<in> set is. i < 49 \<Longrightarrow> replay e candles is call acc = Inr acc"
  by (induction "is" arbitrary: call acc) auto

lemma replay_emitted:
  assumes "replay e candles is call acc = Inr out"
  shows "\<exists>rs. out = acc @ rs
           \<and> length rs = length (filter (\<lambda>i. 49 \<le> i) is)
           \<and> (\<forall>j < length rs.
                 signal_for e (call + j)
                   (take (filter (\<lambda>i. 49 \<le> i) is ! j + 1) candles)
                   (candles ! (filter (\<lambda>i. 49 \<le> i) is ! j)) = Inr (rs ! j))"
  using assms
proof (induction "is" arbitrary: call acc)
  case Nil
  then show ?case by simp
next
  case (Cons i "is")
  show ?case
  proof (cases "49 \<le> i")
    case False
    then show ?thesis using Cons by simp
  next
    case True
    let ?js = "filter (\<lambda>i. 49 \<le> i) is"
    from Cons.prems True obtain r where
      r: "signal_for e call (take (i + 1) candles) (candles ! i) = Inr r"
      and rest: "replay e candles is (Suc call) (acc @ [r]) = Inr out"
      by (auto split: sum.splits)
    from Cons.IH [OF rest] obtain rs where
      rs: "out = (acc @ [r]) @ rs" "length rs = length ?js"
        "\<forall>j < length rs. signal_for e (Suc call + j) (take (?js ! j + 1) candles)
             (candles ! (?js ! j)) = Inr (rs ! j)"
      by blast
    have "\<forall>j < length (r # rs).
        signal_for e (call + j) (take ((i # ?js) ! j + 1) candles)
          (candles ! ((i # ?js) ! j)) = Inr ((r # rs) ! j)"
    proof (intro allI impI)
      fix j
      assume "j < length (r # rs)"
      then show "signal_for e (call + j) (take ((i # ?js) ! j + 1) candles)
          (candles ! ((i # ?js) ! j)) = Inr ((r # rs) ! j)"
        using r rs(3) by (cases j) auto
    qed
    then show ?thesis using rs(1,2) True by (intro exI [of _ "r # rs"]) simp
  qed
qed

lemma replay_runs:
  assumes "\<forall>j < length (filter (\<lambda>i. 49 \<le> i) is).
      \<exists>r. signal_for e (call + j)
             (take (filter (\<lambda>i. 49 \<le> i) is ! j + 1) candles)
             (candles ! (filter (\<lambda>i. 49 \<le> i) is ! j)) = Inr r"
  shows "\<exists>out. replay e candles is call acc = Inr out"
  using assms
proof (induction "is" arbitrary: call acc)
  case Nil
  then show ?case by simp
next
  case (Cons i "is")
  show ?case
  proof (cases "49 \<le> i")
    case False
    then show ?thesis using Cons by simp
  next
    case True
    let ?js = "filter (\<lambda>i. 49 \<le> i) is"
    from Cons.prems True have all: "\<forall>j < Suc (length ?js).
        \<exists>r. signal_for e (call + j) (take ((i # ?js) ! j + 1) candles)
               (candles ! ((i # ?js) ! j)) = Inr r"
      by simp
    from all [rule_format, of 0] obtain r where
      r: "signal_for e call (take (i + 1) candles) (candles ! i) = Inr r"
      by auto
    have "\<forall>j < length ?js.
        \<exists>r. signal_for e (Suc call + j) (take (?js ! j + 1) candles)
               (candles ! (?js ! j)) = Inr r"
    proof (intro allI impI)
      fix j
      assume "j < length ?js"
      then show "\<exists>r. signal_for e (Suc call + j) (take (?js ! j + 1) candles)
               (candles ! (?js ! j)) = Inr r"
        using all [rule_format, of "Suc j"] by simp
    qed
    from Cons.IH [OF this] obtain out where
      "replay e candles is (Suc call) (acc @ [r]) = Inr out" by blast
    then show ?thesis using True r by simp
  qed
qed

lemma replay_failure_origin:
  assumes "replay e candles is call acc = Inl f"
  shows "\<exists>c i. i \<in> set is \<and> signal_for e c (take (i + 1) candles) (candles ! i) = Inl f"
  using assms
proof (induction "is" arbitrary: call acc)
  case Nil
  then show ?case by simp
next
  case (Cons i "is")
  then show ?case
    by (fastforce split: if_splits sum.splits)
qed

text \<open>The replay over all indices of a candle list.\<close>

lemma replay_all_emitted:
  assumes "replay e candles [0..<length candles] 0 [] = Inr out"
  shows "length out = length candles - 49"
    and "j < length out \<Longrightarrow>
      signal_for e j (take (50 + j) candles) (candles ! (49 + j)) = Inr (out ! j)"
proof -
  from replay_emitted [OF assms] obtain rs where
    rs: "out = rs" "length rs = length [49..<length candles]"
      "\<forall>j < length rs. signal_for e (0 + j) (take ([49..<length candles] ! j + 1) candles)
           (candles ! ([49..<length candles] ! j)) = Inr (rs ! j)"
    by (auto simp: filter_ge_upt)
  show "length out = length candles - 49" using rs(1,2) by simp
  assume j: "j < length out"
  then have "[49..<length candles] ! j = 49 + j" using rs(1,2) by simp
  then show "signal_for e j (take (50 + j) candles) (candles ! (49 + j)) = Inr (out ! j)"
    using rs(3) [rule_format, of j] j rs(1) by (simp add: add.commute)
qed

lemma replay_all_runs:
  assumes "\<forall>j < length candles - 49.
      \<exists>r. signal_for e j (take (50 + j) candles) (candles ! (49 + j)) = Inr r"
  shows "\<exists>out. replay e candles [0..<length candles] 0 [] = Inr out"
proof (rule replay_runs)
  show "\<forall>j<length (filter ((\<le>) 49) [0..<length candles]).
       \<exists>r. signal_for e (0 + j) (take (filter ((\<le>) 49) [0..<length candles] ! j + 1) candles)
            (candles ! (filter ((\<le>) 49) [0..<length candles] ! j)) = Inr r"
  proof (intro allI impI)
    fix j
    assume "j < length (filter ((\<le>) 49) [0..<length candles])"
    then have j: "j < length candles - 49" by (simp add: filter_ge_upt)
    then have "[49..<length candles] ! j = 49 + j" by simp
    then show "\<exists>r. signal_for e (0 + j)
        (take (filter ((\<le>) 49) [0..<length candles] ! j + 1) candles)
        (candles ! (filter ((\<le>) 49) [0..<length candles] ! j)) = Inr r"
      using assms [rule_format, OF j] by (simp add: filter_ge_upt add.commute)
  qed
qed

lemma signal_for_fields:
  assumes "signal_for e call cs c = Inr r"
  shows "sr_timestamp r = timestamp c" "sr_price r = close c"
    and "\<exists>p. generate_analysis_prompt cs = Inr p
           \<and> get_deepseek_analysis (deepseek_api_key e) (post_chat e) call p
               = Inr (sr_analysis r)"
  using assms by (auto simp: signal_for_def split: sum.splits)

lemma signal_for_failure:
  assumes "signal_for e call cs c = Inl f" "cs \<noteq> []"
  shows "\<exists>ae. f = AnalysisFailed ae"
  using assms generate_analysis_prompt_total [OF assms(2)]
  by (auto simp: signal_for_def split: sum.splits)

lemma get_signals_replay:
  assumes "fetch_stage e req = Inr (interval, candles)" "req_date req = IsoDate t"
    "1 < length candles"
  shows "get_signals e req =
     (case replay e candles [0..<length candles] 0 [] of
        Inl f \<Rightarrow> ServerError f
      | Inr sigs \<Rightarrow>
          Success \<lparr>body_symbol = req_symbol req, body_interval = interval,
                   total_candles = length candles, signals = sigs\<rparr>)"
  using assms by (simp add: get_signals_def generate_signals_def)

lemma get_signals_replay_success:
  assumes "fetch_stage e req = Inr (interval, candles)" "req_date req = IsoDate t"
    "1 < length candles"
    and steps: "\<forall>j < length candles - 49.
      \<exists>r. signal_for e j (take (50 + j) candles) (candles ! (49 + j)) = Inr r"
  shows "\<exists>body. get_signals e req = Success body
           \<and> total_candles body = length candles
           \<and> length (signals body) = length candles - 49
           \<and> (\<forall>j < length candles - 49.
                 signal_for e j (take (50 + j) candles) (candles ! (49 + j))
                   = Inr (signals body ! j))"
proof -
  from replay_all_runs [OF steps] obtain out where
    out: "replay e candles [0..<length candles] 0 [] = Inr out" by blast
  have len: "length out = length candles - 49"
    by (rule replay_all_emitted(1) [OF out])
  have "\<forall>j < length candles - 49.
      signal_for e j (take (50 + j) candles) (candles ! (49 + j)) = Inr (out ! j)"
    using replay_all_emitted(2) [OF out] len by simp
  then show ?thesis
    using get_signals_replay [OF assms(1-3)] out len by simp
qed

lemma emitted_timestamps:
  assumes "length sigs = length candles - 49"
    and "\<forall>j < length candles - 49.
       signal_for e j (take (50 + j) candles) (candles ! (49 + j)) = Inr (sigs ! j)"
  shows "map sr_timestamp sigs = map timestamp (drop 49 candles)"
proof (rule nth_equalityI)
  show "length (map sr_timestamp sigs) = length (map timestamp (drop 49 candles))"
    using assms(1) by simp
next
  fix j
  assume "j < length (map sr_timestamp sigs)"
  then have j: "j < length candles - 49" using assms(1) by simp
  then have "sr_timestamp (sigs ! j) = timestamp (candles ! (49 + j))"
    using assms(2) signal_for_fields(1) by blast
  then show "map sr_timestamp sigs ! j = map timestamp (drop 49 candles) ! j"
    using j assms(1) by simp
qed

text \<open>Facts about the fixtures.\<close>

lemma hold_body_parses:
  "parse_content hold_body = Inr (JObject [(''signal'', JString ''HOLD'')])"
  by code_simp

lemma fixture_fetch:
  "0 < n \<Longrightarrow> fetch_stage (fixture_env n key answer) fixture_request = Inr (60, fixture_candles n)"
  by (simp add: fetch_stage_def fixture_env_def fixture_request_def plan_window_def
      fixture_candles_def Let_def)

lemma length_fixture_candles: "length (fixture_candles n) = n"
  by (simp add: fixture_candles_def)

lemma fixture_timestamps_increasing:
  "sorted_wrt (<) (map timestamp (fixture_candles n))"
  by (simp add: fixture_candles_def fixture_candle_def comp_def sorted_wrt_map
      sorted_wrt_iff_nth_less)


section \<open>Properties of the indicators\<close>



text \<open>
  C4 (as amended). For every price series and period (at least 1), the RSI at an index
  that has \<open>period\<close> samples is a number in the interval from 0 to 100 whenever the
  trailing mean loss is positive; it is exactly 100 when the mean loss is zero and the
  mean gain is positive (the quotient gain / 0 is an infinity and 100 / infinity is 0:
  there is no separate boundary case in the code); it is exactly 0 when the mean gain is
  zero and the mean loss is positive; it is NaN, the undefined value, at every index
  before \<open>period\<close> samples are available and also wherever both trailing means are
  zero.
\<close>

theorem rsi_bounds:
  assumes "0 < p" "i < length prices"
  shows "(Suc i < p \<longrightarrow> calculate_rsi prices p ! i = NaN)
       \<and> (p \<le> Suc i \<longrightarrow>
            (\<exists>g l. rsi_gain prices p ! i = Some g \<and> rsi_loss prices p ! i = Some l
                 \<and> 0 \<le> g \<and> 0 \<le> l
                 \<and> (0 < l \<longrightarrow> (\<exists>v. calculate_rsi prices p ! i = Fin v \<and> 0 \<le> v \<and> v \<le> 100))
                 \<and> (l = 0 \<and> 0 < g \<longrightarrow> calculate_rsi prices p ! i = Fin 100)
                 \<and> (g = 0 \<and> 0 < l \<longrightarrow> calculate_rsi prices p ! i = Fin 0)
                 \<and> (g = 0 \<and> l = 0 \<longrightarrow> calculate_rsi prices p ! i = NaN)))"
proof (intro conjI impI)
  assume "Suc i < p"
  then have "rsi_gain prices p ! i = None"
    using assms rolling_mean_nth [of p i "map where_gt0 (diff prices)"]
    by (simp add: rsi_gain_def length_diff)
  then show "calculate_rsi prices p ! i = NaN"
    using assms by (simp add: calculate_rsi_nth of_opt_def xsub_def)
next
  assume le: "p \<le> Suc i"
  have ig: "i < length (map where_gt0 (diff prices))"
    and il: "i < length (map (\<lambda>d. - where_lt0 d) (diff prices))"
    using assms by (simp_all add: length_diff)
  obtain g where g: "rsi_gain prices p ! i = Some g" "0 \<le> g"
    using rolling_mean_nonneg [OF assms(1) ig le] where_gt0_nonneg
    by (auto simp: rsi_gain_def)
  obtain l where l: "rsi_loss prices p ! i = Some l" "0 \<le> l"
    using rolling_mean_nonneg [OF assms(1) il le] where_lt0_nonpos
    by (auto simp: rsi_loss_def)
  have v: "calculate_rsi prices p ! i =
      (if l = 0 then (if g = 0 then NaN else Fin 100) else Fin (100 - 100 / (1 + g / l)))"
    using assms g l rsi_value [of g l] by (simp add: calculate_rsi_nth of_opt_def)
  have "0 < l \<longrightarrow> (\<exists>v. calculate_rsi prices p ! i = Fin v \<and> 0 \<le> v \<and> v \<le> 100)"
    using v g(2) rsi_range [of g l] by auto
  moreover have "l = 0 \<and> 0 < g \<longrightarrow> calculate_rsi prices p ! i = Fin 100"
    using v by auto
  moreover have "g = 0 \<and> 0 < l \<longrightarrow> calculate_rsi prices p ! i = Fin 0"
    using v by auto
  moreover have "g = 0 \<and> l = 0 \<longrightarrow> calculate_rsi prices p ! i = NaN"
    using v by auto
  ultimately show "\<exists>g l. rsi_gain prices p ! i = Some g \<and> rsi_loss prices p ! i = Some l
                 \<and> 0 \<le> g \<and> 0 \<le> l
                 \<and> (0 < l \<longrightarrow> (\<exists>v. calculate_rsi prices p ! i = Fin v \<and> 0 \<le> v \<and> v \<le> 100))
                 \<and> (l = 0 \<and> 0 < g \<longrightarrow> calculate_rsi prices p ! i = Fin 100)
                 \<and> (g = 0 \<and> 0 < l \<longrightarrow> calculate_rsi prices p ! i = Fin 0)
                 \<and> (g = 0 \<and> l = 0 \<longrightarrow> calculate_rsi prices p ! i = NaN)"
    using g l by blast
qed

theorem rsi_bounds_witness:
  "calculate_rsi [1, 2, 3, 2] 2 = [NaN, Fin 100, Fin 100, Fin 50]
   \<and> calculate_rsi [3, 2, 1, 1] 2 ! 2 = Fin 0"
proof -
  have p: "0 < (2::nat)" by simp
  have i1: "(1::nat) < length [1, 2, 3, 2 :: rat]" by simp
  have e: "calculate_rsi [1, 2, 3, 2] 2 = [NaN, Fin 100, Fin 100, Fin 50]"
    by code_simp
  have f: "rsi_gain [1, 2, 3, 2] 2 ! 1 = Some (1 / 2)" "rsi_loss [1, 2, 3, 2] 2 ! 1 = Some 0"
    by code_simp+
  have "calculate_rsi [1, 2, 3, 2] 2 ! 1 = Fin 100"
    using rsi_bounds [OF p i1] f by auto
  moreover have "calculate_rsi [3, 2, 1, 1] 2 ! 2 = Fin 0"
    by code_simp
  ultimately show ?thesis using e by simp
qed

text \<open>
  The claim as stated fails on a flat series: fifteen equal prices have a trailing mean
  loss of zero and no gain, and the RSI at the last index is NaN, neither 100 nor 0,
  although fourteen samples are available.
\<close>

theorem rsi_flat_counterexample:
  "rsi_loss (replicate 15 5) 14 ! 14 = Some 0
   \<and> calculate_rsi (replicate 15 5) 14 ! 14 = NaN
   \<and> calculate_rsi (replicate 15 5) 14 ! 14 \<noteq> Fin 100
   \<and> calculate_rsi (replicate 15 5) 14 ! 14 \<noteq> Fin 0"
  by code_simp

section \<open>Properties of the prompt builder\<close>





section \<open>Properties of the window planner\<close>

text \<open>
  C5. For every current time and every target date later than the cutoff
  (current time minus 50 hours), the planner computes
  hours_remaining = floor((target - cutoff) / 3600), fetches
  clamp(hours_remaining, 1, 50) candles and starts the fetch at
  target - candle_count * interval * 60; for a target at or before the cutoff it
  fetches 50 candles. A target ten hours before the current time gives
  hours_remaining = 40 and 40 candles.
\<close>

theorem planner_window_formula:
  fixes now target interval :: int
  shows "(target > now - 50 * 3600 \<longrightarrow>
            hours_remaining now target = (target - (now - 50 * 3600)) div 3600
          \<and> plan_window now interval (IsoDate target) =
              Some \<lparr>plan_count = spec_clamp (hours_remaining now target) 1 50,
                    plan_since = target
                      - spec_clamp (hours_remaining now target) 1 50 * interval * 60\<rparr>)
       \<and> (target \<le> now - 50 * 3600 \<longrightarrow>
            plan_window now interval (IsoDate target) =
              Some \<lparr>plan_count = 50, plan_since = target - 50 * interval * 60\<rparr>)
       \<and> hours_remaining now (now - 10 * 3600) = 40
       \<and> candles_to_fetch now (now - 10 * 3600) = 40"
  by (simp add: plan_window_def candles_to_fetch_def hours_remaining_def
      fifty_hours_ago_def spec_clamp_def Let_def min_def max_def)

theorem planner_window_formula_witness:
  "plan_window 1000000 60 (IsoDate (1000000 - 3 * 3600 - 1800)) =
     Some \<lparr>plan_count = 46, plan_since = 1000000 - 3 * 3600 - 1800 - 46 * 60 * 60\<rparr>
   \<and> plan_window 1000000 60 (IsoDate (1000000 - 60 * 3600)) =
     Some \<lparr>plan_count = 50, plan_since = 1000000 - 60 * 3600 - 50 * 60 * 60\<rparr>"
  using planner_window_formula [of 1000000 "1000000 - 3 * 3600 - 1800" 60]
    planner_window_formula [of 1000000 "1000000 - 60 * 3600" 60]
  by (simp add: hours_remaining_def fifty_hours_ago_def spec_clamp_def)


section \<open>Properties of the response parser\<close>

text \<open>
  C1 (as amended). For every response text, the value the parser returns is exactly what
  the JSON decoder yields for the selected text (the fenced block or the whole text, and
  when that does not decode, the brace-delimited substring); nothing else is checked. In
  particular, for a text without a code fence that decodes to a value \<open>v\<close>, the parser
  returns \<open>v\<close>, and so does \<open>get_deepseek_analysis\<close> when the key is configured and
  the call succeeds. The \<open>signal\<close> field is not looked at: an object whose signal is
  absent or is not one of BUY, SELL, HOLD is returned as the recommendation and is not
  turned into a parse failure.
\<close>

theorem analysis_returns_decoded_value_unvalidated:
  "(parse_content content = Inr v \<longleftrightarrow>
      json_loads (fenced_json_str content) = Some v
      \<or> (json_loads (fenced_json_str content) = None
          \<and> (\<exists>m. brace_search content = Some m \<and> json_loads m = Some v)))
   \<and> (json_loads content = Some v \<and> \<not> contains_str ''```'' content \<longrightarrow>
        parse_content content = Inr v
        \<and> (key \<noteq> [] \<and> post call prompt = Inr content \<longrightarrow>
             get_deepseek_analysis (Some key) post call prompt = Inr v))"
proof (intro conjI impI)
  show "parse_content content = Inr v \<longleftrightarrow>
      json_loads (fenced_json_str content) = Some v
      \<or> (json_loads (fenced_json_str content) = None
          \<and> (\<exists>m. brace_search content = Some m \<and> json_loads m = Some v))"
    by (auto simp: parse_content_def split: option.splits)
next
  assume h: "json_loads content = Some v \<and> \<not> contains_str ''```'' content"
  then show "parse_content content = Inr v" by (simp add: parse_raw)
next
  assume h: "json_loads content = Some v \<and> \<not> contains_str ''```'' content"
    and k: "key \<noteq> [] \<and> post call prompt = Inr content"
  have "parse_content content = Inr v" using h by (simp add: parse_raw)
  then show "get_deepseek_analysis (Some key) post call prompt = Inr v"
    using k by (simp add: get_deepseek_analysis_def)
qed

theorem analysis_returns_decoded_value_unvalidated_witness:
  \<open>get_deepseek_analysis (Some ''key'') (\<lambda>call prompt. Inr ''{"signal": "buy", "target": 7}'')
      0 fixture_prompt
     = Inr (JObject [(''signal'', JString ''buy''), (''target'', JInt 7)])
   \<and> \<not> valid_signal (JObject [(''signal'', JString ''buy''), (''target'', JInt 7)])\<close>
proof -
  let ?content = \<open>''{"signal": "buy", "target": 7}''\<close>
  let ?v = "JObject [(''signal'', JString ''buy''), (''target'', JInt 7)]"
  have a: "json_loads ?content = Some ?v" by code_simp
  have b: "\<not> contains_str ''```'' ?content" by code_simp
  have c: "''key'' \<noteq> []" by simp
  have d: "(\<lambda>call prompt. Inr ?content) 0 fixture_prompt = (Inr ?content :: string + string)"
    by simp
  have e: "\<not> valid_signal ?v" by (simp add: valid_signal_def)
  from analysis_returns_decoded_value_unvalidated
    [of ?content ?v "''key''" "\<lambda>call prompt. Inr ?content" 0 fixture_prompt] a b c d e
  show ?thesis by blast
qed

text \<open>
  The claim as stated fails: an object with the signal MAYBE, and one without a signal,
  are returned as they are.
\<close>

theorem unvalidated_signal_counterexample:
  \<open>parse_content ''{"signal": "MAYBE"}'' = Inr (JObject [(''signal'', JString ''MAYBE'')])
   \<and> \<not> valid_signal (JObject [(''signal'', JString ''MAYBE'')])
   \<and> parse_content ''{"reason": "none"}'' = Inr (JObject [(''reason'', JString ''none'')])
   \<and> \<not> valid_signal (JObject [(''reason'', JString ''none'')])\<close>
  by code_simp

text \<open>
  C6 (as amended). For every text \<open>J\<close> of a JSON object that decodes to \<open>v\<close> and
  contains no run of three backticks, the parser returns \<open>v\<close> for \<open>J\<close> raw, for \<open>J\<close>
  (padded by whitespace) inside a json-tagged fence, for \<open>J\<close> inside an untagged fence,
  and for \<open>J\<close> embedded in prose. The prose before a fence has no backtick, the json tag
  does not occur a second time, the prose around an embedded \<open>J\<close> has no brace and no
  fence, and the embedding text as a whole is not itself JSON.
\<close>

theorem parser_same_object_four_forms:
  assumes "json_loads J = Some v"
    and "J \<noteq> []" "hd J = CHR ''{''" "last J = CHR ''}''"
    and "\<not> contains_str ''```'' J"
    and "\<forall>c \<in> set ws1. is_space c" "\<forall>c \<in> set ws2. is_space c"
  shows "parse_content J = Inr v
       \<and> (CHR 0x60 \<notin> set pre
            \<and> \<not> contains_str ''```json'' (ws1 @ J @ ws2 @ ''```'' @ post)
          \<longrightarrow> parse_content (pre @ ''```json'' @ ws1 @ J @ ws2 @ ''```'' @ post) = Inr v)
       \<and> (CHR 0x60 \<notin> set pre
            \<and> \<not> contains_str ''```json'' (pre @ ''```'' @ ws1 @ J @ ws2 @ ''```'' @ post)
          \<longrightarrow> parse_content (pre @ ''```'' @ ws1 @ J @ ws2 @ ''```'' @ post) = Inr v)
       \<and> (CHR ''{'' \<notin> set pre \<and> CHR ''}'' \<notin> set post
            \<and> \<not> contains_str ''```'' (pre @ J @ post)
            \<and> json_loads (pre @ J @ post) = None
          \<longrightarrow> parse_content (pre @ J @ post) = Inr v)"
  using parse_raw [OF assms(1,5)]
    parse_json_fence [OF assms(1,6,7,2,3,4,5)]
    parse_generic_fence [OF assms(1,6,7,2,3,4,5)]
    parse_prose [OF assms(1,2,3,4)]
  by blast

theorem parser_same_object_four_forms_witness:
  \<open>parse_content ''{"signal": "HOLD"}'' = Inr (JObject [(''signal'', JString ''HOLD'')])
   \<and> parse_content (''Sure: '' @ ''```json'' @ [CHR 0x0A] @ ''{"signal": "HOLD"}''
        @ [CHR 0x0A] @ ''```'' @ '' thanks'')
       = Inr (JObject [(''signal'', JString ''HOLD'')])
   \<and> parse_content (''Sure: '' @ ''```'' @ [CHR 0x0A] @ ''{"signal": "HOLD"}''
        @ [CHR 0x0A] @ ''```'' @ '' thanks'')
       = Inr (JObject [(''signal'', JString ''HOLD'')])
   \<and> parse_content (''Sure: '' @ ''{"signal": "HOLD"}'' @ '' thanks'')
       = Inr (JObject [(''signal'', JString ''HOLD'')])\<close>
proof -
  let ?J = \<open>''{"signal": "HOLD"}''\<close>
  let ?v = "JObject [(''signal'', JString ''HOLD'')]"
  let ?nl = "[CHR 0x0A]"
  have a: "json_loads ?J = Some ?v" by code_simp
  have b: "?J \<noteq> []" "hd ?J = CHR ''{''" "last ?J = CHR ''}''" by simp_all
  have c: "\<not> contains_str ''```'' ?J" by code_simp
  have w: "\<forall>c \<in> set ?nl. is_space c" by (simp add: is_space_def)
  have p: "CHR 0x60 \<notin> set ''Sure: ''" "CHR ''{'' \<notin> set ''Sure: ''"
    "CHR ''}'' \<notin> set '' thanks''" by simp_all
  have d: "\<not> contains_str ''```json'' (?nl @ ?J @ ?nl @ ''```'' @ '' thanks'')"
    by code_simp
  have e: "\<not> contains_str ''```json'' (''Sure: '' @ ''```'' @ ?nl @ ?J @ ?nl @ ''```'' @ '' thanks'')"
    by code_simp
  have f: "\<not> contains_str ''```'' (''Sure: '' @ ?J @ '' thanks'')" by code_simp
  have g: "json_loads (''Sure: '' @ ?J @ '' thanks'') = None" by code_simp
  from parser_same_object_four_forms [OF a b c w w, of "''Sure: ''" "'' thanks''"]
    p d e f g
  show ?thesis by blast
qed

text \<open>
  The claim as stated fails for an object with three backticks inside a string: raw, the
  text between the backticks is taken for a fenced block and the parser returns the
  number 1; inside a json-tagged fence the same object is returned whole.
\<close>

theorem fence_inside_json_counterexample:
  \<open>json_loads ''{"a":"```1```"}'' = Some (JObject [(''a'', JString ''```1```'')])
   \<and> parse_content ''{"a":"```1```"}'' = Inr (JInt 1)
   \<and> parse_content (''```json'' @ [CHR 0x0A] @ ''{"a":"```1```"}'' @ [CHR 0x0A] @ ''```'')
       = Inr (JObject [(''a'', JString ''```1```'')])\<close>
  by code_simp


section \<open>Properties of the replay\<close>

text \<open>
  C2. In replay mode (a date is given and more than one candle is fetched) the handler
  emits no record when fewer than 50 candles were fetched, and exactly
  \<open>len(candles) - 49\<close> records when there are at least 50 and every step obtains its
  recommendation (\<open>signal_for\<close> returns a record); the timestamps of the records are
  those of \<open>candles[49..]\<close> in order, strictly increasing when the candles' timestamps
  are. For 60 candles and a collaborator that returns one fixed parsable body on every
  call, there are exactly 11 records, all carrying the parsed body.
\<close>

theorem replay_emits_len_minus_49:
  assumes "fetch_stage e req = Inr (interval, candles)" "req_date req = IsoDate t"
    "1 < length candles"
  shows "(length candles < 50 \<longrightarrow>
            (\<exists>body. get_signals e req = Success body \<and> signals body = []))
       \<and> (50 \<le> length candles
            \<and> (\<forall>j < length candles - 49.
                 \<exists>r. signal_for e j (take (50 + j) candles) (candles ! (49 + j)) = Inr r)
          \<longrightarrow> (\<exists>body. get_signals e req = Success body
                 \<and> length (signals body) = length candles - 49
                 \<and> map sr_timestamp (signals body) = map timestamp (drop 49 candles)
                 \<and> (sorted_wrt (<) (map timestamp candles)
                      \<longrightarrow> sorted_wrt (<) (map sr_timestamp (signals body)))))
       \<and> (length candles = 60
            \<and> deepseek_api_key e = Some key \<and> key \<noteq> []
            \<and> (\<forall>call prompt. post_chat e call prompt = Inr content)
            \<and> parse_content content = Inr a
          \<longrightarrow> (\<exists>body. get_signals e req = Success body
                 \<and> length (signals body) = 11
                 \<and> map sr_timestamp (signals body) = map timestamp (drop 49 candles)
                 \<and> (\<forall>r \<in> set (signals body). sr_analysis r = a)
                 \<and> (sorted_wrt (<) (map timestamp candles)
                      \<longrightarrow> sorted_wrt (<) (map sr_timestamp (signals body)))))"
proof (intro conjI impI)
  assume "length candles < 50"
  then have "replay e candles [0..<length candles] 0 [] = Inr []"
    by (intro replay_skip) auto
  then show "\<exists>body. get_signals e req = Success body \<and> signals body = []"
    using get_signals_replay [OF assms] by simp
next
  assume "50 \<le> length candles
            \<and> (\<forall>j < length candles - 49.
                 \<exists>r. signal_for e j (take (50 + j) candles) (candles ! (49 + j)) = Inr r)"
  then have steps: "\<forall>j < length candles - 49.
      \<exists>r. signal_for e j (take (50 + j) candles) (candles ! (49 + j)) = Inr r"
    by blast
  from get_signals_replay_success [OF assms steps] obtain body where
    body: "get_signals e req = Success body"
      "length (signals body) = length candles - 49"
      "\<forall>j < length candles - 49.
         signal_for e j (take (50 + j) candles) (candles ! (49 + j)) = Inr (signals body ! j)"
    by blast
  have ts: "map sr_timestamp (signals body) = map timestamp (drop 49 candles)"
    by (rule emitted_timestamps [OF body(2,3)])
  have "sorted_wrt (<) (map timestamp candles)
      \<longrightarrow> sorted_wrt (<) (map sr_timestamp (signals body))"
    using ts sorted_wrt_drop [of "(<)" "map timestamp candles" 49] by (simp add: drop_map)
  then show "\<exists>body. get_signals e req = Success body
                 \<and> length (signals body) = length candles - 49
                 \<and> map sr_timestamp (signals body) = map timestamp (drop 49 candles)
                 \<and> (sorted_wrt (<) (map timestamp candles)
                      \<longrightarrow> sorted_wrt (<) (map sr_timestamp (signals body)))"
    using body(1,2) ts by blast
next
  assume h: "length candles = 60
            \<and> deepseek_api_key e = Some key \<and> key \<noteq> []
            \<and> (\<forall>call prompt. post_chat e call prompt = Inr content)
            \<and> parse_content content = Inr a"
  have step: "signal_for e j (take (50 + j) candles) (candles ! (49 + j)) =
      Inr \<lparr>sr_timestamp = timestamp (candles ! (49 + j)),
           sr_datetime = isoformat e (timestamp (candles ! (49 + j))),
           sr_price = close (candles ! (49 + j)), sr_analysis = a\<rparr>" for j
  proof -
    have "take (50 + j) candles \<noteq> []" using h by auto
    then obtain p where "generate_analysis_prompt (take (50 + j) candles) = Inr p"
      using generate_analysis_prompt_total by blast
    then show ?thesis using h by (simp add: signal_for_def get_deepseek_analysis_def)
  qed
  then have steps: "\<forall>j < length candles - 49.
      \<exists>r. signal_for e j (take (50 + j) candles) (candles ! (49 + j)) = Inr r"
    by blast
  from get_signals_replay_success [OF assms steps] obtain body where
    body: "get_signals e req = Success body"
      "length (signals body) = length candles - 49"
      "\<forall>j < length candles - 49.
         signal_for e j (take (50 + j) candles) (candles ! (49 + j)) = Inr (signals body ! j)"
    by blast
  have ts: "map sr_timestamp (signals body) = map timestamp (drop 49 candles)"
    by (rule emitted_timestamps [OF body(2,3)])
  have an: "\<forall>r \<in> set (signals body). sr_analysis r = a"
  proof
    fix r
    assume "r \<in> set (signals body)"
    then obtain j where j: "j < length (signals body)" "r = signals body ! j"
      by (auto simp: in_set_conv_nth)
    then have "Inr r = signal_for e j (take (50 + j) candles) (candles ! (49 + j))"
      using body(2,3) by simp
    then show "sr_analysis r = a" using step [of j] by simp
  qed
  have "sorted_wrt (<) (map timestamp candles)
      \<longrightarrow> sorted_wrt (<) (map sr_timestamp (signals body))"
    using ts sorted_wrt_drop [of "(<)" "map timestamp candles" 49] by (simp add: drop_map)
  moreover have "length (signals body) = 11" using body(2) h by simp
  ultimately show "\<exists>body. get_signals e req = Success body
                 \<and> length (signals body) = 11
                 \<and> map sr_timestamp (signals body) = map timestamp (drop 49 candles)
                 \<and> (\<forall>r \<in> set (signals body). sr_analysis r = a)
                 \<and> (sorted_wrt (<) (map timestamp candles)
                      \<longrightarrow> sorted_wrt (<) (map sr_timestamp (signals body)))"
    using body(1) ts an by blast
qed

theorem replay_emits_len_minus_49_witness:
  "\<exists>body. get_signals (fixture_env 60 (Some ''key'') (\<lambda>call. Inr hold_body)) fixture_request
             = Success body
         \<and> length (signals body) = 11
         \<and> map sr_timestamp (signals body) = map timestamp (drop 49 (fixture_candles 60))
         \<and> (\<forall>r \<in> set (signals body). sr_analysis r = JObject [(''signal'', JString ''HOLD'')])
         \<and> sorted_wrt (<) (map sr_timestamp (signals body))"
proof -
  let ?e = "fixture_env 60 (Some ''key'') (\<lambda>call. Inr hold_body)"
  have f: "fetch_stage ?e fixture_request = Inr (60, fixture_candles 60)"
    by (simp add: fixture_fetch)
  have d: "req_date fixture_request = IsoDate 1700000000"
    by (simp add: fixture_request_def)
  have l: "1 < length (fixture_candles 60)"
    by (simp add: length_fixture_candles)
  have h: "length (fixture_candles 60) = 60
      \<and> deepseek_api_key ?e = Some ''key'' \<and> ''key'' \<noteq> []
      \<and> (\<forall>call prompt. post_chat ?e call prompt = Inr hold_body)
      \<and> parse_content hold_body = Inr (JObject [(''signal'', JString ''HOLD'')])"
    by (simp add: length_fixture_candles fixture_env_def hold_body_parses)
  show ?thesis
    using replay_emits_len_minus_49 [OF f d l, of "''key''" hold_body
        "JObject [(''signal'', JString ''HOLD'')]"] h fixture_timestamps_increasing [of 60]
    by blast
qed

text \<open>
  C3. In replay mode the record number \<open>j\<close> of a successful response belongs to the
  candle \<open>candles[49 + j]\<close>; its recommendation is the analysis of the prompt built from
  the prefix \<open>candles[0..49 + j]\<close> alone, of which that candle is the last; so for
  candles in ascending order of time, every candle used has a timestamp no later than
  the record's own.
\<close>

theorem replay_no_look_ahead:
  assumes "fetch_stage e req = Inr (interval, candles)" "req_date req = IsoDate t"
    "1 < length candles"
    and "get_signals e req = Success body" "j < length (signals body)"
  shows "(\<exists>prompt. generate_analysis_prompt (take (50 + j) candles) = Inr prompt
            \<and> get_deepseek_analysis (deepseek_api_key e) (post_chat e) j prompt
                = Inr (sr_analysis (signals body ! j)))
       \<and> 49 + j < length candles
       \<and> sr_timestamp (signals body ! j) = timestamp (candles ! (49 + j))
       \<and> candles ! (49 + j) = last (take (50 + j) candles)
       \<and> (sorted (map timestamp candles) \<longrightarrow>
            (\<forall>c \<in> set (take (50 + j) candles). timestamp c \<le> sr_timestamp (signals body ! j)))"
proof -
  from assms(4) get_signals_replay [OF assms(1-3)]
  have out: "replay e candles [0..<length candles] 0 [] = Inr (signals body)"
    by (auto split: sum.splits)
  have len: "length (signals body) = length candles - 49"
    by (rule replay_all_emitted(1) [OF out])
  then have i: "49 + j < length candles" using assms(5) by simp
  have step: "signal_for e j (take (50 + j) candles) (candles ! (49 + j))
      = Inr (signals body ! j)"
    by (rule replay_all_emitted(2) [OF out assms(5)])
  have ts: "sr_timestamp (signals body ! j) = timestamp (candles ! (49 + j))"
    by (rule signal_for_fields(1) [OF step])
  have lst: "candles ! (49 + j) = last (take (50 + j) candles)"
  proof -
    have "take (50 + j) candles = take (49 + j) candles @ [candles ! (49 + j)]"
      using take_Suc_conv_app_nth [OF i] by simp
    then show ?thesis by simp
  qed
  have mono: "\<forall>c \<in> set (take (50 + j) candles). timestamp c \<le> sr_timestamp (signals body ! j)"
    if s: "sorted (map timestamp candles)"
  proof
    fix c
    assume "c \<in> set (take (50 + j) candles)"
    then obtain k where k: "k < 50 + j" "k < length candles" "c = candles ! k"
      by (auto simp: in_set_conv_nth)
    then have "map timestamp candles ! k \<le> map timestamp candles ! (49 + j)"
      using s i by (intro sorted_nth_mono) auto
    then show "timestamp c \<le> sr_timestamp (signals body ! j)"
      using k i ts by simp
  qed
  show ?thesis
    using signal_for_fields(3) [OF step] i ts lst mono by blast
qed

theorem replay_no_look_ahead_witness:
  "\<exists>body. get_signals (fixture_env 51 (Some ''key'') (\<lambda>call. Inr hold_body)) fixture_request
             = Success body
         \<and> length (signals body) = 2
         \<and> sr_timestamp (signals body ! 1) = timestamp (fixture_candles 51 ! 50)
         \<and> (\<forall>c \<in> set (take 51 (fixture_candles 51)).
               timestamp c \<le> sr_timestamp (signals body ! 1))"
proof -
  let ?e = "fixture_env 51 (Some ''key'') (\<lambda>call. Inr hold_body)"
  let ?cs = "fixture_candles 51"
  have f: "fetch_stage ?e fixture_request = Inr (60, ?cs)"
    by (simp add: fixture_fetch)
  have d: "req_date fixture_request = IsoDate 1700000000"
    by (simp add: fixture_request_def)
  have l: "1 < length ?cs"
    by (simp add: length_fixture_candles)
  have "\<exists>r. signal_for ?e j (take (50 + j) ?cs) (?cs ! (49 + j)) = Inr r" for j
  proof -
    have "take (50 + j) ?cs \<noteq> []" by (simp add: fixture_candles_def)
    then obtain p where "generate_analysis_prompt (take (50 + j) ?cs) = Inr p"
      using generate_analysis_prompt_total by blast
    then show ?thesis
      by (simp add: signal_for_def get_deepseek_analysis_def fixture_env_def hold_body_parses)
  qed
  then obtain body where
    body: "get_signals ?e fixture_request = Success body" "length (signals body) = 2"
    using get_signals_replay_success [OF f d l] by (auto simp: length_fixture_candles)
  have j: "1 < length (signals body)" using body(2) by simp
  have s: "sorted (map timestamp ?cs)"
    using fixture_timestamps_increasing [of 51] strict_sorted_imp_sorted by blast
  have n: "(50::nat) + 1 = 51" "(49::nat) + 1 = 50" by simp_all
  from replay_no_look_ahead [OF f d l body(1) j, unfolded n] s
  have "sr_timestamp (signals body ! 1) = timestamp (?cs ! 50)
      \<and> (\<forall>c \<in> set (take 51 ?cs). timestamp c \<le> sr_timestamp (signals body ! 1))"
    by blast
  then show ?thesis using body by blast
qed

text \<open>
  C8. In replay mode, if at some replay step the collaborator's analysis of that step's
  prompt fails (the key is missing, the call fails, or the response cannot be parsed),
  the whole request ends in a server error that carries the failure and no records:
  records of earlier steps are dropped. With a missing or empty key the error is the
  one of the missing key.
\<close>

theorem replay_step_failure_aborts:
  assumes "fetch_stage e req = Inr (interval, candles)" "req_date req = IsoDate t"
    "1 < length candles"
    and "j < length candles - 49"
    and "generate_analysis_prompt (take (50 + j) candles) = Inr prompt"
    and "get_deepseek_analysis (deepseek_api_key e) (post_chat e) j prompt = Inl err"
  shows "(\<exists>err'. get_signals e req = ServerError (AnalysisFailed err'))
       \<and> ((deepseek_api_key e = None \<or> deepseek_api_key e = Some [])
            \<longrightarrow> get_signals e req = ServerError (AnalysisFailed KeyNotConfigured))"
proof -
  have fail: "signal_for e j (take (50 + j) candles) (candles ! (49 + j))
      = Inl (AnalysisFailed err)"
    using assms(5,6) by (simp add: signal_for_def)
  have "\<exists>f. replay e candles [0..<length candles] 0 [] = Inl f"
  proof (cases "replay e candles [0..<length candles] 0 []")
    case (Inl f)
    then show ?thesis by blast
  next
    case (Inr out)
    have "length out = length candles - 49"
      by (rule replay_all_emitted(1) [OF Inr])
    then have "j < length out" using assms(4) by simp
    from replay_all_emitted(2) [OF Inr this] fail show ?thesis by simp
  qed
  then obtain f where f: "replay e candles [0..<length candles] 0 [] = Inl f" by blast
  from replay_failure_origin [OF f] obtain c i where
    o: "i \<in> set [0..<length candles]"
      "signal_for e c (take (i + 1) candles) (candles ! i) = Inl f"
    by blast
  have ne: "take (i + 1) candles \<noteq> []" using assms(3) by auto
  from signal_for_failure [OF o(2) ne] obtain ae where ae: "f = AnalysisFailed ae" by blast
  have g: "get_signals e req = ServerError f"
    using get_signals_replay [OF assms(1-3)] f by simp
  have "f = AnalysisFailed KeyNotConfigured"
    if "deepseek_api_key e = None \<or> deepseek_api_key e = Some []"
    using o(2) that generate_analysis_prompt_total [OF ne]
    by (auto simp: signal_for_def get_deepseek_analysis_def split: sum.splits)
  then show ?thesis using g ae by blast
qed

theorem replay_step_failure_aborts_witness:
  "(\<exists>err'. get_signals (fixture_env 60 (Some ''key'')
               (\<lambda>call. if call = 3 then Inl ''timeout'' else Inr hold_body)) fixture_request
             = ServerError (AnalysisFailed err'))
   \<and> get_signals (fixture_env 60 None (\<lambda>call. Inr hold_body)) fixture_request
       = ServerError (AnalysisFailed KeyNotConfigured)"
proof -
  let ?e = "fixture_env 60 (Some ''key'') (\<lambda>call. if call = 3 then Inl ''timeout'' else Inr hold_body)"
  let ?e' = "fixture_env 60 None (\<lambda>call. Inr hold_body)"
  let ?cs = "fixture_candles 60"
  have f: "fetch_stage ?e fixture_request = Inr (60, ?cs)"
    and f': "fetch_stage ?e' fixture_request = Inr (60, ?cs)"
    by (simp_all add: fixture_fetch)
  have d: "req_date fixture_request = IsoDate 1700000000"
    by (simp add: fixture_request_def)
  have l: "1 < length ?cs" and j: "3 < length ?cs - 49" and j': "0 < length ?cs - 49"
    by (simp_all add: length_fixture_candles)
  have "take (50 + 3) ?cs \<noteq> []" by (simp add: fixture_candles_def)
  then obtain p where p: "generate_analysis_prompt (take (50 + 3) ?cs) = Inr p"
    using generate_analysis_prompt_total by blast
  have a: "get_deepseek_analysis (deepseek_api_key ?e) (post_chat ?e) 3 p
      = Inl (ApiError (TransportFailure ''timeout''))"
    by (simp add: get_deepseek_analysis_def fixture_env_def)
  have "take (50 + 0) ?cs \<noteq> []" by (simp add: fixture_candles_def)
  then obtain p' where p': "generate_analysis_prompt (take (50 + 0) ?cs) = Inr p'"
    using generate_analysis_prompt_total by blast
  have a': "get_deepseek_analysis (deepseek_api_key ?e') (post_chat ?e') 0 p'
      = Inl KeyNotConfigured"
    by (simp add: get_deepseek_analysis_def fixture_env_def)
  have k: "deepseek_api_key ?e' = None" by (simp add: fixture_env_def)
  show ?thesis
    using replay_step_failure_aborts [OF f d l j p a]
      replay_step_failure_aborts [OF f' d l j' p' a'] k
    by blast
qed

text \<open>
  C9. When a date is given and between 2 and 49 candles are fetched, the handler
  returns the success response with an empty list of signals and with
  \<open>total_candles\<close> equal to the number of fetched candles.
\<close>

theorem short_replay_is_empty_success:
  assumes "fetch_stage e req = Inr (interval, candles)" "req_date req = IsoDate t"
    and "2 \<le> length candles" "length candles \<le> 49"
  shows "get_signals e req =
           Success \<lparr>body_symbol = req_symbol req, body_interval = interval,
                    total_candles = length candles, signals = []\<rparr>"
proof -
  have l: "1 < length candles" using assms(3) by simp
  have "replay e candles [0..<length candles] 0 [] = Inr []"
    using assms(4) by (intro replay_skip) auto
  then show ?thesis using get_signals_replay [OF assms(1,2) l] by simp
qed

theorem short_replay_is_empty_success_witness:
  "get_signals (fixture_env 30 None (\<lambda>call. Inl ''unreachable'')) fixture_request =
     Success \<lparr>body_symbol = ''XBTUSD'', body_interval = 60, total_candles = 30, signals = []\<rparr>"
proof -
  let ?e = "fixture_env 30 None (\<lambda>call. Inl ''unreachable'')"
  have f: "fetch_stage ?e fixture_request = Inr (60, fixture_candles 30)"
    by (simp add: fixture_fetch)
  have d: "req_date fixture_request = IsoDate 1700000000"
    by (simp add: fixture_request_def)
  have l: "2 \<le> length (fixture_candles 30)" "length (fixture_candles 30) \<le> 49"
    by (simp_all add: length_fixture_candles)
  show ?thesis
    using short_replay_is_empty_success [OF f d l]
    by (simp add: length_fixture_candles fixture_request_def)
qed

end
